theory Spec2Isabelle
  imports Main "HOL-Library.AList"
begin

section \<open>The district graph of \<^verbatim>\<open>src/common/graph.py\<close>\<close>

text \<open>
  The module holds two classes. A \<^verbatim>\<open>Vertex\<close> is a precinct: its id, the
  district it currently belongs to, and the set of adjacent precinct ids. A
  \<^verbatim>\<open>Graph\<close> owns the vertices (a dict keyed by precinct id), the border
  index \<^verbatim>\<open>vertex_on_border\<close> (a dict keyed by pairs of a vertex id and a
  district id), the per-vertex sets \<^verbatim>\<open>district_id_on_border_of_vertex\<close>,
  and a dense tensor \<^verbatim>\<open>state\<close> whose column 0 mirrors the district of
  each vertex, negated when the vertex is on a border.

  Every method mutates the graph in place and may raise. A method is modelled as a
  function from the graph to \<open>(error \<times> Graph) + Graph\<close>: \<open>Inr g'\<close> is a normal
  return that leaves the graph as \<open>g'\<close>, and \<open>Inl (e, g')\<close> is the exception
  \<open>e\<close>, raised when the object had already been mutated into \<open>g'\<close>.
\<close>

subsection \<open>Data\<close>

text \<open>
  The exceptions the code can raise: \<^verbatim>\<open>KeyError\<close> from a dict lookup, a
  \<^verbatim>\<open>dict.pop\<close> or a \<^verbatim>\<open>set.remove\<close>; \<^verbatim>\<open>ValueError\<close> from the two
  explicit \<^verbatim>\<open>raise\<close> statements of \<^verbatim>\<open>change_vertex_district\<close>;
  \<^verbatim>\<open>IndexError\<close> from indexing the tensor out of range; \<^verbatim>\<open>TypeError\<close>
  from indexing \<^verbatim>\<open>self.state\<close> while it still is \<^verbatim>\<open>None\<close>;
  \<^verbatim>\<open>RuntimeError\<close> from a tensor assignment whose source cannot be broadcast
  to the shape of its target.
\<close>

datatype error = KeyError | ValueError | IndexError | TypeError | RuntimeError

text \<open>
  A Python \<^verbatim>\<open>set\<close> of integers is a list without repetitions.
  \<^verbatim>\<open>s.add(x)\<close> leaves a set that holds \<open>x\<close> as it is. The list is in the
  order of insertion; the order in which Python iterates a set is that of its hash
  table, which is why the properties below speak of the elements of a set and never
  of their order.
\<close>

definition set_add :: "int list \<Rightarrow> int \<Rightarrow> int list" where
  "set_add s x = (if x \<in> set s then s else s @ [x])"

record Vertex =
  prescinct_id :: int
  district_id :: int
  adj_vertices :: "int list"

text \<open>
  The state is a tensor of 32-bit floats (\<^verbatim>\<open>torch.zeros\<close> with the default
  dtype). The code only ever stores integers in it, and a float that comes from an
  integer is an integer again, so that a cell is modelled by the integer it holds. A
  32-bit float has 24 significant bits: storing an integer rounds it to the nearest
  integer with that many, a tie going to the one whose last significant bit is
  \<open>0\<close>. \<open>bit_length\<close> is the number of bits of a natural number, \<open>f32 x\<close> the
  integer a cell holds once \<open>x\<close> has been assigned to it.

  torch takes the Python integer through a signed 64-bit integer and raises on one
  that does not fit. The model has no such failure: it rounds every integer, and is
  the code for the ids of precincts and districts that fit, as those read from the
  integer columns of a data frame do.
\<close>

fun bit_length :: "nat \<Rightarrow> nat" where
  "bit_length n = (if n = 0 then 0 else Suc (bit_length (n div 2)))"

declare bit_length.simps [simp del]

definition f32 :: "int \<Rightarrow> int" where
  "f32 x =
     (let a = nat \<bar>x\<bar>;
          e = bit_length a - 24;
          q = a div 2 ^ e;
          r = a mod 2 ^ e;
          q' = (if 2 * r > 2 ^ e \<or> (2 * r = 2 ^ e \<and> odd q) then q + 1 else q)
      in sgn x * int (q' * 2 ^ e))"

text \<open>
  A tensor of two dimensions is the list of its rows. A descriptor of the border index
  is the one-dimensional tensor of three integers that \<^verbatim>\<open>update_border\<close> builds
  (\<^verbatim>\<open>torch.tensor\<close> of a list of integers keeps them as 64-bit integers).
\<close>

type_synonym tensor = "int list list"

record Graph =
  vertex_on_border :: "int \<times> int \<rightharpoonup> int list"
  district_id_on_border_of_vertex :: "int \<rightharpoonup> int list"
  vertices :: "(int \<times> Vertex) list"
  max_district_id :: int
  state :: "tensor option"

type_synonym outcome = "(error \<times> Graph) + Graph"

text \<open>\<^verbatim>\<open>Graph.__init__\<close> (the device is not modelled: it only places the tensors).\<close>

definition Graph_init :: Graph where
  "Graph_init =
     \<lparr>vertex_on_border = Map.empty, district_id_on_border_of_vertex = Map.empty,
      vertices = [], max_district_id = 0, state = None\<rparr>"

text \<open>\<^verbatim>\<open>Vertex.__init__\<close> and \<^verbatim>\<open>Vertex.set_adj\<close>.\<close>

definition Vertex_init :: "int \<Rightarrow> int \<Rightarrow> Vertex" where
  "Vertex_init p d = \<lparr>prescinct_id = p, district_id = d, adj_vertices = []\<rparr>"

fun set_adj :: "Vertex \<Rightarrow> int list \<Rightarrow> Vertex" where
  "set_adj v [] = v"
| "set_adj v (a # as) = set_adj (v\<lparr>adj_vertices := set_add (adj_vertices v) a\<rparr>) as"

subsection \<open>Indexing the state tensor\<close>

text \<open>
  torch indexes a dimension of size \<open>n\<close> with \<open>-n \<le> i < n\<close>, a negative index
  counting from the end, and raises \<^verbatim>\<open>IndexError\<close> otherwise.
\<close>

definition norm_index :: "nat \<Rightarrow> int \<Rightarrow> nat option" where
  "norm_index n i =
     (if 0 \<le> i \<and> i < int n then Some (nat i)
      else if - int n \<le> i \<and> i < 0 then Some (nat (int n + i))
      else None)"

text \<open>The assignment \<^verbatim>\<open>self.state[i, 0] = x\<close> of an integer \<open>x\<close>.\<close>

definition state_set0 :: "tensor option \<Rightarrow> int \<Rightarrow> int \<Rightarrow> error + tensor" where
  "state_set0 st i x =
     (case st of
        None \<Rightarrow> Inl TypeError
      | Some t \<Rightarrow>
          (case norm_index (length t) i of
             None \<Rightarrow> Inl IndexError
           | Some r \<Rightarrow>
               (case t ! r of
                  [] \<Rightarrow> Inl IndexError
                | c # cs \<Rightarrow> Inr (t[r := f32 x # cs]))))"

text \<open>The read \<^verbatim>\<open>self.state[i, 0]\<close>, \<open>None\<close> where it raises.\<close>

definition state_get0 :: "tensor option \<Rightarrow> int \<Rightarrow> int option" where
  "state_get0 st i =
     (case st of
        None \<Rightarrow> None
      | Some t \<Rightarrow>
          (case norm_index (length t) i of
             None \<Rightarrow> None
           | Some r \<Rightarrow> (case t ! r of [] \<Rightarrow> None | c # cs \<Rightarrow> Some c)))"

text \<open>
  The assignment \<^verbatim>\<open>self.state[i, 1:] = xs\<close> of a tensor \<open>xs\<close> of floats: the row
  keeps its first cell and takes \<open>xs\<close> for the others when there are as many; a
  tensor of one element is broadcast to all of them; any other length raises.
\<close>

definition state_set_rest :: "tensor \<Rightarrow> int \<Rightarrow> int list \<Rightarrow> error + tensor" where
  "state_set_rest t i xs =
     (case norm_index (length t) i of
        None \<Rightarrow> Inl IndexError
      | Some r \<Rightarrow>
          (case t ! r of
             [] \<Rightarrow> Inl IndexError
           | c # cs \<Rightarrow>
               if length xs = length cs then Inr (t[r := c # xs])
               else if length xs = 1 then Inr (t[r := c # replicate (length cs) (hd xs)])
               else Inl RuntimeError))"

subsection \<open>\<^verbatim>\<open>Graph.graph_from_json\<close>\<close>

text \<open>
  \<^verbatim>\<open>load_raw_data\<close> is not part of the module; the data frame it returns is a
  parameter: the list of its rows in the order \<^verbatim>\<open>iterrows\<close> yields them, each
  row its index and its columns \<^verbatim>\<open>cd_2020\<close> and \<^verbatim>\<open>adj\<close>.

  The first loop builds one vertex per row and stores it under the row's index; a
  dict assignment to a key that is present replaces the value and keeps the key's
  position, which is \<open>AList.update\<close>.
\<close>

type_synonym frame = "(int \<times> int \<times> int list) list"

fun load_rows :: "(int \<times> Vertex) list \<Rightarrow> nat \<Rightarrow> frame \<Rightarrow> (int \<times> Vertex) list \<times> nat" where
  "load_rows vs m [] = (vs, m)"
| "load_rows vs m ((index, cd_2020, adj) # rows) =
     (let vertex = set_adj (Vertex_init index cd_2020) adj;
          m' = (if length adj > m then length adj else m)
      in load_rows (AList.update index vertex vs) m' rows)"

text \<open>
  Lines 47 to 49: the tensor of \<open>m\<close> zeros whose first cells take the adjacent ids,
  as floats. When the vertex has more than \<open>m\<close> adjacent ids the slice is the whole
  tensor, and the assignment raises, unless there is one id only: the tensor of one
  element is broadcast to the slice, which is empty then.
\<close>

definition adj_tensor :: "nat \<Rightarrow> int list \<Rightarrow> error + int list" where
  "adj_tensor m adj =
     (let len_adj = length adj in
      if len_adj \<le> m then Inr (map f32 adj @ replicate (m - len_adj) 0)
      else if len_adj = 1 then Inr (replicate m (f32 (hd adj)))
      else Inl RuntimeError)"

text \<open>
  The second loop writes one row of the tensor per vertex: the district in column 0,
  then the adjacent ids padded with zeros up to \<open>m\<close> columns.
\<close>

fun fill_state :: "nat \<Rightarrow> tensor \<Rightarrow> (int \<times> Vertex) list \<Rightarrow> (error \<times> tensor) + tensor" where
  "fill_state m t [] = Inr t"
| "fill_state m t ((vertex_id, vertex) # rest) =
     (case state_set0 (Some t) vertex_id (district_id vertex) of
        Inl e \<Rightarrow> Inl (e, t)
      | Inr t1 \<Rightarrow>
          (case adj_tensor m (adj_vertices vertex) of
             Inl e \<Rightarrow> Inl (e, t1)
           | Inr xs \<Rightarrow>
               (case state_set_rest t1 vertex_id xs of
                  Inl e \<Rightarrow> Inl (e, t1)
                | Inr t2 \<Rightarrow> fill_state m t2 rest)))"

definition graph_from_json :: "Graph \<Rightarrow> frame \<Rightarrow> outcome" where
  "graph_from_json g df =
     (let (vs, max_adjacent_vertices) = load_rows (vertices g) 0 df;
          g1 = g\<lparr>vertices := vs\<rparr>;
          zeros = replicate (length vs) (replicate (max_adjacent_vertices + 1) 0)
      in case fill_state max_adjacent_vertices zeros vs of
           Inl (e, t) \<Rightarrow> Inl (e, g1\<lparr>state := Some t\<rparr>)
         | Inr t \<Rightarrow> Inr (g1\<lparr>state := Some t\<rparr>))"

subsection \<open>\<^verbatim>\<open>Graph.update_border\<close>\<close>

definition update_border :: "Graph \<Rightarrow> Vertex \<Rightarrow> Vertex \<Rightarrow> outcome" where
  "update_border g vertex adj_vertex =
     (let vertex_prescinct_id = prescinct_id vertex;
          g1 = g\<lparr>vertex_on_border := (vertex_on_border g)
                 ((vertex_prescinct_id, district_id adj_vertex) \<mapsto>
                    [vertex_prescinct_id, district_id vertex, district_id adj_vertex])\<rparr>
      in case state_set0 (state g1) vertex_prescinct_id (- district_id vertex) of
           Inl e \<Rightarrow> Inl (e, g1)
         | Inr t \<Rightarrow>
             (let g2 = g1\<lparr>state := Some t\<rparr>;
                  s = (case district_id_on_border_of_vertex g2 vertex_prescinct_id of
                         None \<Rightarrow> []
                       | Some s \<Rightarrow> s)
              in Inr (g2\<lparr>district_id_on_border_of_vertex :=
                          (district_id_on_border_of_vertex g2)
                            (vertex_prescinct_id \<mapsto> set_add s (district_id adj_vertex))\<rparr>)))"

subsection \<open>\<^verbatim>\<open>Graph.get_border_vertices\<close>\<close>

text \<open>
  The loop over the adjacent ids of one vertex, which \<^verbatim>\<open>get_border_vertices\<close>
  (lines 59 to 62) and \<^verbatim>\<open>change_vertex_district\<close> (lines 97 to 100) both run.
\<close>

fun scan_adj :: "Graph \<Rightarrow> Vertex \<Rightarrow> int list \<Rightarrow> outcome" where
  "scan_adj g vertex [] = Inr g"
| "scan_adj g vertex (adj_vertex_id # rest) =
     (case map_of (vertices g) adj_vertex_id of
        None \<Rightarrow> Inl (KeyError, g)
      | Some adj_vertex \<Rightarrow>
          if district_id vertex \<noteq> district_id adj_vertex then
            (case update_border g vertex adj_vertex of
               Inl e \<Rightarrow> Inl e
             | Inr g' \<Rightarrow> scan_adj g' vertex rest)
          else scan_adj g vertex rest)"

fun border_loop :: "Graph \<Rightarrow> Vertex list \<Rightarrow> outcome" where
  "border_loop g [] = Inr g"
| "border_loop g (vertex # rest) =
     (case scan_adj g vertex (adj_vertices vertex) of
        Inl e \<Rightarrow> Inl e
      | Inr g' \<Rightarrow> border_loop g' rest)"

definition get_border_vertices :: "Graph \<Rightarrow> outcome" where
  "get_border_vertices g = border_loop g (map snd (vertices g))"

subsection \<open>\<^verbatim>\<open>Graph.change_vertex_district\<close>\<close>

text \<open>
  The list comprehension of line 84: the vertices stored under the given ids, or
  \<^verbatim>\<open>KeyError\<close> at the first id that is not a key.
\<close>

fun lookup_vertices :: "(int \<times> Vertex) list \<Rightarrow> int list \<Rightarrow> Vertex list option" where
  "lookup_vertices vs [] = Some []"
| "lookup_vertices vs (vert_id # rest) =
     (case map_of vs vert_id of
        None \<Rightarrow> None
      | Some v \<Rightarrow> map_option ((#) v) (lookup_vertices vs rest))"

text \<open>
  Lines 89 to 93: the loop over a copy of the vertex's set of bordering districts.
  \<^verbatim>\<open>dict.pop\<close> raises on a key that is absent, and so does \<^verbatim>\<open>set.remove\<close>
  on an element that is absent. The set object stays in the dict when its last
  element is removed.
\<close>

fun clear_border :: "Graph \<Rightarrow> Vertex \<Rightarrow> int list \<Rightarrow> outcome" where
  "clear_border g vertex [] = Inr g"
| "clear_border g vertex (adj_vertex_id # rest) =
     (let vid = prescinct_id vertex in
      case vertex_on_border g (vid, adj_vertex_id) of
        None \<Rightarrow> Inl (KeyError, g)
      | Some _ \<Rightarrow>
          (let g1 = g\<lparr>vertex_on_border := (vertex_on_border g)((vid, adj_vertex_id) := None)\<rparr>
           in case district_id_on_border_of_vertex g1 vid of
                None \<Rightarrow> Inl (KeyError, g1)
              | Some s \<Rightarrow>
                  if adj_vertex_id \<notin> set s then Inl (KeyError, g1)
                  else
                    (let g2 = g1\<lparr>district_id_on_border_of_vertex :=
                                  (district_id_on_border_of_vertex g1)
                                    (vid \<mapsto> removeAll adj_vertex_id s)\<rparr>
                     in case state_set0 (state g2) vid (district_id vertex) of
                          Inl e \<Rightarrow> Inl (e, g2)
                        | Inr t \<Rightarrow> clear_border (g2\<lparr>state := Some t\<rparr>) vertex rest)))"

text \<open>
  Lines 88 to 93: a vertex that is a key of \<^verbatim>\<open>district_id_on_border_of_vertex\<close>
  loses all its border information; one that is not a key is left alone.
\<close>

definition clear_vertex :: "Graph \<Rightarrow> Vertex \<Rightarrow> outcome" where
  "clear_vertex g vertex =
     (case district_id_on_border_of_vertex g (prescinct_id vertex) of
        None \<Rightarrow> Inr g
      | Some s \<Rightarrow> clear_border g vertex s)"

text \<open>
  Lines 86 to 100: the body of the loop clears one vertex and scans its adjacent
  vertices again; the loop runs it on every vertex of the list.
\<close>

definition rebuild_vertex :: "Graph \<Rightarrow> Vertex \<Rightarrow> outcome" where
  "rebuild_vertex g vertex =
     (case clear_vertex g vertex of
        Inl e \<Rightarrow> Inl e
      | Inr g1 \<Rightarrow> scan_adj g1 vertex (adj_vertices vertex))"

fun rebuild_loop :: "Graph \<Rightarrow> Vertex list \<Rightarrow> outcome" where
  "rebuild_loop g [] = Inr g"
| "rebuild_loop g (vertex # rest) =
     (case rebuild_vertex g vertex of
        Inl e \<Rightarrow> Inl e
      | Inr g' \<Rightarrow> rebuild_loop g' rest)"

definition change_vertex_district :: "Graph \<Rightarrow> int \<Rightarrow> int \<Rightarrow> outcome" where
  "change_vertex_district g prescinct_id' new_district_id =
     (case map_of (vertices g) prescinct_id' of
        None \<Rightarrow> Inl (KeyError, g)
      | Some vertex \<Rightarrow>
          if new_district_id = district_id vertex then Inl (ValueError, g)
          else if vertex_on_border g (prescinct_id', new_district_id) = None
            then Inl (ValueError, g)
          else
            (let vertex' = vertex\<lparr>district_id := new_district_id\<rparr>;
                 g1 = g\<lparr>vertices := AList.update prescinct_id' vertex' (vertices g)\<rparr>
             in case state_set0 (state g1) prescinct_id' new_district_id of
                  Inl e \<Rightarrow> Inl (e, g1)
                | Inr t \<Rightarrow>
                    (let g2 = g1\<lparr>state := Some t\<rparr> in
                     case lookup_vertices (vertices g2) (adj_vertices vertex') of
                       None \<Rightarrow> Inl (KeyError, g2)
                     | Some vs \<Rightarrow> rebuild_loop g2 (vs @ [vertex']))))"


section \<open>Vocabulary of the properties\<close>

text \<open>
  The set of bordering districts the graph records for a vertex id: the value of
  \<^verbatim>\<open>district_id_on_border_of_vertex\<close>, empty when the id is not a key.
\<close>

definition border_set :: "Graph \<Rightarrow> int \<Rightarrow> int list" where
  "border_set g k = (case district_id_on_border_of_vertex g k of None \<Rightarrow> [] | Some s \<Rightarrow> s)"

text \<open>
  The districts that differ from the district of \<open>vertex\<close> among those of the
  vertices stored under \<open>ids\<close>: with \<open>ids\<close> the adjacent ids of \<open>vertex\<close>, the
  districts the vertex is on a border with.
\<close>

definition differing :: "(int \<times> Vertex) list \<Rightarrow> Vertex \<Rightarrow> int list \<Rightarrow> int set" where
  "differing vs vertex ids =
     {d. \<exists>a \<in> set ids. \<exists>n. map_of vs a = Some n \<and> district_id n = d \<and> d \<noteq> district_id vertex}"

text \<open>The row of the tensor that an index addresses.\<close>

definition row_of :: "tensor option \<Rightarrow> int \<Rightarrow> nat option" where
  "row_of st i = (case st of None \<Rightarrow> None | Some t \<Rightarrow> norm_index (length t) i)"

text \<open>
  The two border maps are in lock step: the keys of the border index are the pairs of
  a vertex id and a district of its recorded set.
\<close>

definition lock_step :: "Graph \<Rightarrow> bool" where
  "lock_step g \<longleftrightarrow>
     (\<forall>k d. vertex_on_border g (k, d) \<noteq> None \<longleftrightarrow> d \<in> set (border_set g k)) \<and>
     (\<forall>k. distinct (border_set g k))"

text \<open>A vertex object is the one the graph stores under the object's own id.\<close>

definition stored :: "Graph \<Rightarrow> Vertex \<Rightarrow> bool" where
  "stored g w \<longleftrightarrow> map_of (vertices g) (prescinct_id w) = Some w"

text \<open>
  What holds of the graph from construction on and is never changed again: the keys
  of \<^verbatim>\<open>vertices\<close> are distinct (it is a dict), every vertex is stored under its
  own id, and every vertex id addresses a row of the state tensor.
\<close>

definition structure_ok :: "Graph \<Rightarrow> bool" where
  "structure_ok g \<longleftrightarrow>
     distinct (map fst (vertices g)) \<and>
     (\<forall>k w. map_of (vertices g) k = Some w \<longrightarrow>
        prescinct_id w = k \<and> state_get0 (state g) k \<noteq> None)"

text \<open>
  A freshly constructed graph: the vertices and the tensor are there, the two border
  maps are still empty. It is what \<^verbatim>\<open>graph_from_json\<close> leaves when it returns
  (lemma \<open>graph_from_json_fresh\<close>).
\<close>

definition freshly_constructed :: "Graph \<Rightarrow> bool" where
  "freshly_constructed g \<longleftrightarrow>
     structure_ok g \<and> vertex_on_border g = Map.empty \<and>
     district_id_on_border_of_vertex g = Map.empty"

text \<open>Every adjacent id of every vertex is the id of a vertex of the graph.\<close>

definition closed :: "Graph \<Rightarrow> bool" where
  "closed g \<longleftrightarrow>
     (\<forall>k w. map_of (vertices g) k = Some w \<longrightarrow>
        (\<forall>a \<in> set (adj_vertices w). map_of (vertices g) a \<noteq> None))"

text \<open>
  Every descriptor of the border index is the one \<^verbatim>\<open>update_border\<close> would build
  now: the vertex id, the current district of the vertex, the bordering district.
\<close>

definition descriptors_ok :: "Graph \<Rightarrow> bool" where
  "descriptors_ok g \<longleftrightarrow>
     (\<forall>k d x. vertex_on_border g (k, d) = Some x \<longrightarrow>
        (\<exists>w. map_of (vertices g) k = Some w \<and> x = [k, district_id w, d]))"

definition consistent :: "Graph \<Rightarrow> bool" where
  "consistent g \<longleftrightarrow> structure_ok g \<and> closed g \<and> lock_step g \<and> descriptors_ok g"

text \<open>
  The recorded set of every vertex holds the districts of its adjacent vertices that
  differ from its own, and no other.
\<close>

definition exact :: "Graph \<Rightarrow> bool" where
  "exact g \<longleftrightarrow>
     (\<forall>k w. map_of (vertices g) k = Some w \<longrightarrow>
        set (border_set g k) = differing (vertices g) w (adj_vertices w))"

text \<open>
  The adjacency is symmetric: a vertex is adjacent to the vertices it lists. The code
  assumes it of its input and does not check it.
\<close>

definition adj_symmetric :: "Graph \<Rightarrow> bool" where
  "adj_symmetric g \<longleftrightarrow>
     (\<forall>k w a n. map_of (vertices g) k = Some w \<longrightarrow> a \<in> set (adj_vertices w) \<longrightarrow>
        map_of (vertices g) a = Some n \<longrightarrow> k \<in> set (adj_vertices n))"

text \<open>
  The graphs the calls can reach from a freshly constructed graph \<open>g0\<close>: one
  \<^verbatim>\<open>get_border_vertices\<close> that returns, then any number of calls of
  \<^verbatim>\<open>change_vertex_district\<close> that return.
\<close>

inductive reachable :: "Graph \<Rightarrow> Graph \<Rightarrow> bool" for g0 :: Graph where
  discovered: "freshly_constructed g0 \<Longrightarrow> get_border_vertices g0 = Inr g \<Longrightarrow> reachable g0 g"
| moved: "reachable g0 g \<Longrightarrow> change_vertex_district g p d = Inr g' \<Longrightarrow> reachable g0 g'"

text \<open>
  Column 0 of the row of a vertex holds its district, negated when the graph records
  a bordering district for it: the cell holds what an assignment of that integer
  leaves in it.
\<close>

definition mirrored_at :: "Graph \<Rightarrow> int \<Rightarrow> Vertex \<Rightarrow> bool" where
  "mirrored_at g k u \<longleftrightarrow>
     state_get0 (state g) k =
       Some (f32 (if border_set g k = [] then district_id u else - district_id u))"

definition mirrored :: "Graph \<Rightarrow> bool" where
  "mirrored g \<longleftrightarrow> (\<forall>k u. map_of (vertices g) k = Some u \<longrightarrow> mirrored_at g k u)"

text \<open>
  The same for a vertex with no recorded district only: what line 82 leaves for the
  vertex that moves, until the loop reaches it.
\<close>

definition half_mirrored_at :: "Graph \<Rightarrow> int \<Rightarrow> Vertex \<Rightarrow> bool" where
  "half_mirrored_at g k u \<longleftrightarrow>
     (border_set g k = [] \<longrightarrow> state_get0 (state g) k = Some (f32 (district_id u)))"

text \<open>
  Two vertex ids never address the same row of the tensor. A negative id addresses a
  row from the end, so that the ids \<open>-1\<close> and \<open>n - 1\<close> of a graph of \<open>n\<close> vertices
  share the last row; ids that are all non-negative keep the rows apart
  (lemma \<open>nonneg_rows_apart\<close>).
\<close>

definition rows_apart :: "Graph \<Rightarrow> bool" where
  "rows_apart g \<longleftrightarrow>
     (\<forall>k k'. map_of (vertices g) k \<noteq> None \<longrightarrow> map_of (vertices g) k' \<noteq> None \<longrightarrow>
        row_of (state g) k = row_of (state g) k' \<longrightarrow> k = k')"

text \<open>
  The entry of \<^verbatim>\<open>self.vertices\<close> that the first loop of \<^verbatim>\<open>graph_from_json\<close>
  makes of one row of the data frame.
\<close>

definition row_vertex :: "int \<times> int \<times> int list \<Rightarrow> int \<times> Vertex" where
  "row_vertex row = (case row of (index, cd_2020, adj) \<Rightarrow>
     (index, set_adj (Vertex_init index cd_2020) adj))"


section \<open>A concrete graph\<close>

text \<open>
  Four precincts \<open>0, 1, 2, 3\<close> in a row, the first two in district \<open>1\<close> and the
  last two in district \<open>2\<close>: the data frame, the graph \<^verbatim>\<open>graph_from_json\<close>
  builds from it, the graph after \<^verbatim>\<open>get_border_vertices\<close>, and the graph after
  moving precinct \<open>1\<close> to district \<open>2\<close>.
\<close>

definition path_frame :: frame where
  "path_frame = [(0, 1, [1]), (1, 1, [0, 2]), (2, 2, [1, 3]), (3, 2, [2])]"

definition path_g0 :: Graph where
  "path_g0 =
     \<lparr>vertex_on_border = Map.empty, district_id_on_border_of_vertex = Map.empty,
      vertices =
        [(0, \<lparr>prescinct_id = 0, district_id = 1, adj_vertices = [1]\<rparr>),
         (1, \<lparr>prescinct_id = 1, district_id = 1, adj_vertices = [0, 2]\<rparr>),
         (2, \<lparr>prescinct_id = 2, district_id = 2, adj_vertices = [1, 3]\<rparr>),
         (3, \<lparr>prescinct_id = 3, district_id = 2, adj_vertices = [2]\<rparr>)],
      max_district_id = 0,
      state = Some [[1, 1, 0], [1, 0, 2], [2, 1, 3], [2, 2, 0]]\<rparr>"

definition path_g1 :: Graph where
  "path_g1 =
     \<lparr>vertex_on_border = [(1, 2) \<mapsto> [1, 1, 2], (2, 1) \<mapsto> [2, 2, 1]],
      district_id_on_border_of_vertex = [1 \<mapsto> [2], 2 \<mapsto> [1]],
      vertices =
        [(0, \<lparr>prescinct_id = 0, district_id = 1, adj_vertices = [1]\<rparr>),
         (1, \<lparr>prescinct_id = 1, district_id = 1, adj_vertices = [0, 2]\<rparr>),
         (2, \<lparr>prescinct_id = 2, district_id = 2, adj_vertices = [1, 3]\<rparr>),
         (3, \<lparr>prescinct_id = 3, district_id = 2, adj_vertices = [2]\<rparr>)],
      max_district_id = 0,
      state = Some [[1, 1, 0], [- 1, 0, 2], [- 2, 1, 3], [2, 2, 0]]\<rparr>"

definition path_g2 :: Graph where
  "path_g2 =
     \<lparr>vertex_on_border = [(0, 2) \<mapsto> [0, 1, 2], (1, 1) \<mapsto> [1, 2, 1]],
      district_id_on_border_of_vertex = [0 \<mapsto> [2], 1 \<mapsto> [1], 2 \<mapsto> []],
      vertices =
        [(0, \<lparr>prescinct_id = 0, district_id = 1, adj_vertices = [1]\<rparr>),
         (1, \<lparr>prescinct_id = 1, district_id = 2, adj_vertices = [0, 2]\<rparr>),
         (2, \<lparr>prescinct_id = 2, district_id = 2, adj_vertices = [1, 3]\<rparr>),
         (3, \<lparr>prescinct_id = 3, district_id = 2, adj_vertices = [2]\<rparr>)],
      max_district_id = 0,
      state = Some [[- 1, 1, 0], [- 2, 0, 2], [2, 1, 3], [2, 2, 0]]\<rparr>"

text \<open>
  Six precincts \<open>0\<close> to \<open>5\<close> in a row, two by two in the districts \<open>1\<close>,
  \<open>2\<close> and \<open>3\<close>: the data frame, the graph built from it, the graph after border
  discovery, and the graph after moving precinct \<open>1\<close> to district \<open>2\<close>. Precinct
  \<open>3\<close> is on the border with district \<open>3\<close> and is not adjacent to precinct
  \<open>1\<close>.
\<close>

definition long_frame :: frame where
  "long_frame =
     [(0, 1, [1]), (1, 1, [0, 2]), (2, 2, [1, 3]), (3, 2, [2, 4]), (4, 3, [3, 5]), (5, 3, [4])]"

definition long_g0 :: Graph where
  "long_g0 =
     \<lparr>vertex_on_border = Map.empty, district_id_on_border_of_vertex = Map.empty,
      vertices =
        [(0, \<lparr>prescinct_id = 0, district_id = 1, adj_vertices = [1]\<rparr>),
         (1, \<lparr>prescinct_id = 1, district_id = 1, adj_vertices = [0, 2]\<rparr>),
         (2, \<lparr>prescinct_id = 2, district_id = 2, adj_vertices = [1, 3]\<rparr>),
         (3, \<lparr>prescinct_id = 3, district_id = 2, adj_vertices = [2, 4]\<rparr>),
         (4, \<lparr>prescinct_id = 4, district_id = 3, adj_vertices = [3, 5]\<rparr>),
         (5, \<lparr>prescinct_id = 5, district_id = 3, adj_vertices = [4]\<rparr>)],
      max_district_id = 0,
      state = Some [[1, 1, 0], [1, 0, 2], [2, 1, 3], [2, 2, 4], [3, 3, 5], [3, 4, 0]]\<rparr>"

definition long_g1 :: Graph where
  "long_g1 =
     \<lparr>vertex_on_border =
        [(1, 2) \<mapsto> [1, 1, 2], (2, 1) \<mapsto> [2, 2, 1], (3, 3) \<mapsto> [3, 2, 3],
         (4, 2) \<mapsto> [4, 3, 2]],
      district_id_on_border_of_vertex = [1 \<mapsto> [2], 2 \<mapsto> [1], 3 \<mapsto> [3], 4 \<mapsto> [2]],
      vertices =
        [(0, \<lparr>prescinct_id = 0, district_id = 1, adj_vertices = [1]\<rparr>),
         (1, \<lparr>prescinct_id = 1, district_id = 1, adj_vertices = [0, 2]\<rparr>),
         (2, \<lparr>prescinct_id = 2, district_id = 2, adj_vertices = [1, 3]\<rparr>),
         (3, \<lparr>prescinct_id = 3, district_id = 2, adj_vertices = [2, 4]\<rparr>),
         (4, \<lparr>prescinct_id = 4, district_id = 3, adj_vertices = [3, 5]\<rparr>),
         (5, \<lparr>prescinct_id = 5, district_id = 3, adj_vertices = [4]\<rparr>)],
      max_district_id = 0,
      state = Some [[1, 1, 0], [- 1, 0, 2], [- 2, 1, 3], [- 2, 2, 4], [- 3, 3, 5], [3, 4, 0]]\<rparr>"

definition long_g2 :: Graph where
  "long_g2 =
     \<lparr>vertex_on_border =
        [(0, 2) \<mapsto> [0, 1, 2], (1, 1) \<mapsto> [1, 2, 1], (3, 3) \<mapsto> [3, 2, 3],
         (4, 2) \<mapsto> [4, 3, 2]],
      district_id_on_border_of_vertex =
        [0 \<mapsto> [2], 1 \<mapsto> [1], 2 \<mapsto> [], 3 \<mapsto> [3], 4 \<mapsto> [2]],
      vertices =
        [(0, \<lparr>prescinct_id = 0, district_id = 1, adj_vertices = [1]\<rparr>),
         (1, \<lparr>prescinct_id = 1, district_id = 2, adj_vertices = [0, 2]\<rparr>),
         (2, \<lparr>prescinct_id = 2, district_id = 2, adj_vertices = [1, 3]\<rparr>),
         (3, \<lparr>prescinct_id = 3, district_id = 2, adj_vertices = [2, 4]\<rparr>),
         (4, \<lparr>prescinct_id = 4, district_id = 3, adj_vertices = [3, 5]\<rparr>),
         (5, \<lparr>prescinct_id = 5, district_id = 3, adj_vertices = [4]\<rparr>)],
      max_district_id = 0,
      state = Some [[- 1, 1, 0], [- 2, 0, 2], [2, 1, 3], [- 2, 2, 4], [- 3, 3, 5], [3, 4, 0]]\<rparr>"

text \<open>A data frame in which two rows have the index \<open>0\<close>, and the graph built from it.\<close>

definition dup_frame :: frame where
  "dup_frame = [(0, 1, []), (0, 2, [])]"

definition dup_graph :: Graph where
  "dup_graph =
     \<lparr>vertex_on_border = Map.empty, district_id_on_border_of_vertex = Map.empty,
      vertices = [(0, \<lparr>prescinct_id = 0, district_id = 2, adj_vertices = []\<rparr>)],
      max_district_id = 0, state = Some [[2]]\<rparr>"

text \<open>
  Two precincts \<open>-1\<close> and \<open>1\<close>, adjacent, of the districts \<open>1\<close> and \<open>2\<close>: the
  data frame, the graph built from it and the graph after border discovery. The tensor
  has two rows, and both ids address the second.
\<close>

definition neg_frame :: frame where
  "neg_frame = [(- 1, 1, [1]), (1, 2, [- 1])]"

definition neg_g0 :: Graph where
  "neg_g0 =
     \<lparr>vertex_on_border = Map.empty, district_id_on_border_of_vertex = Map.empty,
      vertices =
        [(- 1, \<lparr>prescinct_id = - 1, district_id = 1, adj_vertices = [1]\<rparr>),
         (1, \<lparr>prescinct_id = 1, district_id = 2, adj_vertices = [- 1]\<rparr>)],
      max_district_id = 0,
      state = Some [[0, 0], [2, - 1]]\<rparr>"

definition neg_g1 :: Graph where
  "neg_g1 =
     \<lparr>vertex_on_border = [(- 1, 2) \<mapsto> [- 1, 1, 2], (1, 1) \<mapsto> [1, 2, 1]],
      district_id_on_border_of_vertex = [- 1 \<mapsto> [2], 1 \<mapsto> [1]],
      vertices =
        [(- 1, \<lparr>prescinct_id = - 1, district_id = 1, adj_vertices = [1]\<rparr>),
         (1, \<lparr>prescinct_id = 1, district_id = 2, adj_vertices = [- 1]\<rparr>)],
      max_district_id = 0,
      state = Some [[0, 0], [- 2, - 1]]\<rparr>"

text \<open>
  Two precincts \<open>0\<close> and \<open>1\<close>, adjacent, the first of the district
  \<open>16777217 = 2 ^ 24 + 1\<close>, which no 32-bit float holds: the data frame, the graph
  built from it and the graph after border discovery.
\<close>

definition big_frame :: frame where
  "big_frame = [(0, 16777217, [1]), (1, 1, [0])]"

definition big_g0 :: Graph where
  "big_g0 =
     \<lparr>vertex_on_border = Map.empty, district_id_on_border_of_vertex = Map.empty,
      vertices =
        [(0, \<lparr>prescinct_id = 0, district_id = 16777217, adj_vertices = [1]\<rparr>),
         (1, \<lparr>prescinct_id = 1, district_id = 1, adj_vertices = [0]\<rparr>)],
      max_district_id = 0,
      state = Some [[16777216, 1], [1, 0]]\<rparr>"

definition big_g1 :: Graph where
  "big_g1 =
     \<lparr>vertex_on_border = [(0, 1) \<mapsto> [0, 16777217, 1], (1, 16777217) \<mapsto> [1, 1, 16777217]],
      district_id_on_border_of_vertex = [0 \<mapsto> [1], 1 \<mapsto> [16777217]],
      vertices =
        [(0, \<lparr>prescinct_id = 0, district_id = 16777217, adj_vertices = [1]\<rparr>),
         (1, \<lparr>prescinct_id = 1, district_id = 1, adj_vertices = [0]\<rparr>)],
      max_district_id = 0,
      state = Some [[- 16777216, 1], [- 1, 0]]\<rparr>"




section \<open>Lemmas about the operations\<close>

subsection \<open>Rounding to a 32-bit float\<close>

lemma bit_length_0: "bit_length 0 = 0"
  by (simp add: bit_length.simps)

lemma bit_length_pos: "0 < n \<Longrightarrow> bit_length n = Suc (bit_length (n div 2))"
  by (subst bit_length.simps) simp

lemma bit_length_le: "n < 2 ^ k \<Longrightarrow> bit_length n \<le> k"
proof (induction k arbitrary: n)
  case 0
  then show ?case by (simp add: bit_length_0)
next
  case (Suc k)
  show ?case
  proof (cases "n = 0")
    case True
    then show ?thesis by (simp add: bit_length_0)
  next
    case False
    from Suc.prems have "n div 2 < 2 ^ k" by simp
    from Suc.IH[OF this] False show ?thesis by (simp add: bit_length_pos)
  qed
qed

text \<open>What unfolds \<open>f32\<close> on a numeral.\<close>

lemmas f32_run = f32_def Let_def bit_length_0 bit_length_pos

text \<open>An integer of magnitude up to \<open>2 ^ 24\<close> is stored as it is.\<close>

lemma f32_exact_below: "\<bar>x\<bar> < 16777216 \<Longrightarrow> f32 x = x"
proof -
  assume "\<bar>x\<bar> < 16777216"
  then have "nat \<bar>x\<bar> < 2 ^ 24" by simp
  from bit_length_le[OF this] have "bit_length (nat \<bar>x\<bar>) - 24 = 0" by simp
  then show ?thesis by (simp add: f32_def Let_def sgn_if)
qed

lemma f32_top: "f32 16777216 = 16777216" "f32 (- 16777216) = - 16777216"
  by (simp_all add: f32_run)

lemma f32_exact: "\<bar>x\<bar> \<le> 16777216 \<Longrightarrow> f32 x = x"
proof -
  assume "\<bar>x\<bar> \<le> 16777216"
  then consider "\<bar>x\<bar> < 16777216" | "x = 16777216" | "x = - 16777216" by linarith
  then show ?thesis
  proof cases
    case 1
    then show ?thesis by (rule f32_exact_below)
  next
    case 2
    then show ?thesis using f32_top(1) by simp
  next
    case 3
    then show ?thesis using f32_top(2) by simp
  qed
qed

lemma f32_minus: "f32 (- x) = - f32 x"
  by (simp add: f32_def Let_def sgn_if)

subsection \<open>Sets and the tensor\<close>

lemma set_set_add [simp]: "set (set_add s x) = insert x (set s)"
  by (auto simp: set_add_def)

lemma distinct_set_add [simp]: "distinct (set_add s x) = distinct s"
  by (auto simp: set_add_def)

lemma set_add_mem: "x \<in> set s \<Longrightarrow> set_add s x = s"
  by (simp add: set_add_def)

lemma norm_index_less: "norm_index n i = Some r \<Longrightarrow> r < n"
  by (auto simp: norm_index_def split: if_splits)

lemma state_set0_Inr_iff: "(\<exists>t. state_set0 st i x = Inr t) \<longleftrightarrow> state_get0 st i \<noteq> None"
  by (auto simp: state_set0_def state_get0_def split: option.splits list.splits)

lemma state_set0_row_of: "state_set0 st i x = Inr t \<Longrightarrow> row_of (Some t) j = row_of st j"
  by (auto simp: state_set0_def row_of_def split: option.splits list.splits)

lemma state_set0_Inr:
  "state_set0 st i x = Inr t' \<Longrightarrow>
   \<exists>t r c cs. st = Some t \<and> norm_index (length t) i = Some r \<and> r < length t \<and>
      t ! r = c # cs \<and> t' = t[r := f32 x # cs]"
  by (auto simp: state_set0_def dest: norm_index_less split: option.splits list.splits)

lemma state_set0_get:
  assumes "state_set0 st i x = Inr t'"
  shows "state_get0 (Some t') j =
     (if row_of st j = row_of st i then Some (f32 x) else state_get0 st j)"
proof -
  from state_set0_Inr[OF assms] obtain t r c cs where
    st: "st = Some t" and r: "norm_index (length t) i = Some r" "r < length t"
    and row: "t ! r = c # cs" and t': "t' = t[r := f32 x # cs]"
    by blast
  show ?thesis
  proof (cases "norm_index (length t) j")
    case None
    then show ?thesis using st r t' by (simp add: state_get0_def row_of_def)
  next
    case (Some r')
    then show ?thesis using st r t' row
      by (cases "r' = r") (auto simp: state_get0_def row_of_def)
  qed
qed

lemma state_set0_not_ValueError: "state_set0 st i x \<noteq> Inl ValueError"
  by (auto simp: state_set0_def split: option.splits list.splits)

lemma state_set0_same:
  "state_get0 (Some t) i = Some (f32 x) \<Longrightarrow> state_set0 (Some t) i x = Inr t"
  by (auto simp: state_set0_def state_get0_def list_update_same_conv dest: norm_index_less
      split: option.splits list.splits)

lemma differing_Nil [simp]: "differing vs w [] = {}"
  by (simp add: differing_def)

lemma differing_Cons:
  "differing vs w (a # ids) =
     (case map_of vs a of
        None \<Rightarrow> {}
      | Some n \<Rightarrow> if district_id n \<noteq> district_id w then {district_id n} else {}) \<union>
     differing vs w ids"
  by (auto simp: differing_def split: option.splits)

subsection \<open>update_border\<close>

lemma update_border_vertices:
  "update_border g v a = Inr g' \<Longrightarrow> vertices g' = vertices g"
  by (auto simp: update_border_def Let_def split: sum.splits)

lemma update_border_vob:
  "update_border g v a = Inr g' \<Longrightarrow>
   vertex_on_border g' = (vertex_on_border g)
      ((prescinct_id v, district_id a) \<mapsto> [prescinct_id v, district_id v, district_id a])"
  by (auto simp: update_border_def Let_def split: sum.splits)

lemma update_border_dob:
  "update_border g v a = Inr g' \<Longrightarrow>
   district_id_on_border_of_vertex g' = (district_id_on_border_of_vertex g)
      (prescinct_id v \<mapsto> set_add (border_set g (prescinct_id v)) (district_id a))"
  by (auto simp: update_border_def Let_def border_set_def split: sum.splits)

lemma update_border_state:
  "update_border g v a = Inr g' \<Longrightarrow>
   \<exists>t. state_set0 (state g) (prescinct_id v) (- district_id v) = Inr t \<and> state g' = Some t"
  by (auto simp: update_border_def Let_def split: sum.splits)

lemma update_border_max:
  "update_border g v a = Inr g' \<Longrightarrow> max_district_id g' = max_district_id g"
  by (auto simp: update_border_def Let_def split: sum.splits)

lemma update_border_succeeds:
  "state_get0 (state g) (prescinct_id v) \<noteq> None \<Longrightarrow> \<exists>g'. update_border g v a = Inr g'"
  using state_set0_Inr_iff[of "state g" "prescinct_id v" "- district_id v"]
  by (auto simp: update_border_def Let_def split: sum.splits)

lemma update_border_not_ValueError: "update_border g v a \<noteq> Inl (ValueError, g')"
  by (auto simp: update_border_def Let_def state_set0_not_ValueError split: sum.splits)


subsection \<open>scan_adj\<close>

lemma scan_adj_vertices:
  "scan_adj g w ids = Inr g' \<Longrightarrow> vertices g' = vertices g"
  by (induction ids arbitrary: g)
     (auto split: option.splits sum.splits if_splits dest: update_border_vertices)

lemma scan_adj_max:
  "scan_adj g w ids = Inr g' \<Longrightarrow> max_district_id g' = max_district_id g"
  by (induction ids arbitrary: g)
     (auto split: option.splits sum.splits if_splits dest: update_border_max)

lemma scan_adj_closed:
  "scan_adj g w ids = Inr g' \<Longrightarrow> a \<in> set ids \<Longrightarrow> map_of (vertices g) a \<noteq> None"
proof (induction ids arbitrary: g)
  case Nil
  then show ?case by simp
next
  case (Cons b ids)
  then obtain n where n: "map_of (vertices g) b = Some n"
    by (auto split: option.splits)
  show ?case
  proof (cases "a = b")
    case True
    with n show ?thesis by simp
  next
    case False
    with Cons.prems have a: "a \<in> set ids" by simp
    show ?thesis
    proof (cases "district_id w \<noteq> district_id n")
      case True
      with Cons.prems n obtain g1 where g1: "update_border g w n = Inr g1"
        and rest: "scan_adj g1 w ids = Inr g'"
        by (auto split: sum.splits)
      from Cons.IH[OF rest a] update_border_vertices[OF g1] show ?thesis by simp
    next
      case False
      with Cons.prems n have rest: "scan_adj g w ids = Inr g'" by simp
      from Cons.IH[OF rest a] show ?thesis .
    qed
  qed
qed

lemma scan_adj_vob:
  "scan_adj g w ids = Inr g' \<Longrightarrow>
   vertex_on_border g' (k, d) =
     (if k = prescinct_id w \<and> d \<in> differing (vertices g) w ids
      then Some [prescinct_id w, district_id w, d]
      else vertex_on_border g (k, d))"
proof (induction ids arbitrary: g)
  case Nil
  then show ?case by simp
next
  case (Cons a ids)
  then obtain n where n: "map_of (vertices g) a = Some n"
    by (auto split: option.splits)
  show ?case
  proof (cases "district_id w \<noteq> district_id n")
    case True
    with Cons.prems n obtain g1 where g1: "update_border g w n = Inr g1"
      and rest: "scan_adj g1 w ids = Inr g'"
      by (auto split: sum.splits)
    from Cons.IH[OF rest] update_border_vertices[OF g1] update_border_vob[OF g1] n True
    show ?thesis by (auto simp: differing_Cons)
  next
    case False
    with Cons.prems n have rest: "scan_adj g w ids = Inr g'" by simp
    from Cons.IH[OF rest] n False show ?thesis by (auto simp: differing_Cons)
  qed
qed

lemma scan_adj_dob_other:
  "scan_adj g w ids = Inr g' \<Longrightarrow> k \<noteq> prescinct_id w \<Longrightarrow>
   district_id_on_border_of_vertex g' k = district_id_on_border_of_vertex g k"
  by (induction ids arbitrary: g)
     (auto split: option.splits sum.splits if_splits dest!: update_border_dob)

lemma scan_adj_dob_keeps:
  "scan_adj g w ids = Inr g' \<Longrightarrow> district_id_on_border_of_vertex g k \<noteq> None \<Longrightarrow>
   district_id_on_border_of_vertex g' k \<noteq> None"
proof (induction ids arbitrary: g)
  case Nil
  then show ?case by simp
next
  case (Cons a ids)
  then obtain n where n: "map_of (vertices g) a = Some n"
    by (auto split: option.splits)
  show ?case
  proof (cases "district_id w \<noteq> district_id n")
    case True
    with Cons.prems n obtain g1 where g1: "update_border g w n = Inr g1"
      and rest: "scan_adj g1 w ids = Inr g'"
      by (auto split: sum.splits)
    from update_border_dob[OF g1] Cons.prems(2)
    have "district_id_on_border_of_vertex g1 k \<noteq> None" by auto
    from Cons.IH[OF rest this] show ?thesis .
  next
    case False
    with Cons.prems n have rest: "scan_adj g w ids = Inr g'" by simp
    from Cons.IH[OF rest Cons.prems(2)] show ?thesis .
  qed
qed

lemma scan_adj_border_set:
  "scan_adj g w ids = Inr g' \<Longrightarrow>
   set (border_set g' (prescinct_id w)) =
     set (border_set g (prescinct_id w)) \<union> differing (vertices g) w ids \<and>
   distinct (border_set g' (prescinct_id w)) = distinct (border_set g (prescinct_id w))"
proof (induction ids arbitrary: g)
  case Nil
  then show ?case by simp
next
  case (Cons a ids)
  then obtain n where n: "map_of (vertices g) a = Some n"
    by (auto split: option.splits)
  show ?case
  proof (cases "district_id w \<noteq> district_id n")
    case True
    with Cons.prems n obtain g1 where g1: "update_border g w n = Inr g1"
      and rest: "scan_adj g1 w ids = Inr g'"
      by (auto split: sum.splits)
    have b1: "border_set g1 (prescinct_id w) =
        set_add (border_set g (prescinct_id w)) (district_id n)"
      using update_border_dob[OF g1] by (simp add: border_set_def)
    from Cons.IH[OF rest] update_border_vertices[OF g1] b1 n True
    show ?thesis by (auto simp: differing_Cons)
  next
    case False
    with Cons.prems n have rest: "scan_adj g w ids = Inr g'" by simp
    from Cons.IH[OF rest] n False show ?thesis by (auto simp: differing_Cons)
  qed
qed

lemma scan_adj_dob_unchanged:
  "scan_adj g w ids = Inr g' \<Longrightarrow>
   differing (vertices g) w ids \<subseteq> set (border_set g (prescinct_id w)) \<Longrightarrow>
   district_id_on_border_of_vertex g' = district_id_on_border_of_vertex g"
proof (induction ids arbitrary: g)
  case Nil
  then show ?case by simp
next
  case (Cons a ids)
  then obtain n where n: "map_of (vertices g) a = Some n"
    by (auto split: option.splits)
  show ?case
  proof (cases "district_id w \<noteq> district_id n")
    case True
    with Cons.prems n obtain g1 where g1: "update_border g w n = Inr g1"
      and rest: "scan_adj g1 w ids = Inr g'"
      by (auto split: sum.splits)
    from Cons.prems(2) n True have mem: "district_id n \<in> set (border_set g (prescinct_id w))"
      and sub: "differing (vertices g) w ids \<subseteq> set (border_set g (prescinct_id w))"
      by (auto simp: differing_Cons)
    from mem obtain s where s: "district_id_on_border_of_vertex g (prescinct_id w) = Some s"
      "district_id n \<in> set s" "border_set g (prescinct_id w) = s"
      by (cases "district_id_on_border_of_vertex g (prescinct_id w)")
         (auto simp: border_set_def)
    have d1: "district_id_on_border_of_vertex g1 = district_id_on_border_of_vertex g"
      using update_border_dob[OF g1] s by (auto simp: set_add_mem)
    then have "border_set g1 (prescinct_id w) = border_set g (prescinct_id w)"
      by (simp add: border_set_def)
    with Cons.IH[OF rest] sub update_border_vertices[OF g1] d1 show ?thesis by simp
  next
    case False
    with Cons.prems n have rest: "scan_adj g w ids = Inr g'"
      and sub: "differing (vertices g) w ids \<subseteq> set (border_set g (prescinct_id w))"
      by (auto simp: differing_Cons)
    from Cons.IH[OF rest sub] show ?thesis .
  qed
qed

lemma scan_adj_row_of:
  "scan_adj g w ids = Inr g' \<Longrightarrow> row_of (state g') j = row_of (state g) j"
proof (induction ids arbitrary: g)
  case Nil
  then show ?case by simp
next
  case (Cons a ids)
  then obtain n where n: "map_of (vertices g) a = Some n"
    by (auto split: option.splits)
  show ?case
  proof (cases "district_id w \<noteq> district_id n")
    case True
    with Cons.prems n obtain g1 where g1: "update_border g w n = Inr g1"
      and rest: "scan_adj g1 w ids = Inr g'"
      by (auto split: sum.splits)
    from update_border_state[OF g1] have "row_of (state g1) j = row_of (state g) j"
      by (auto dest: state_set0_row_of)
    with Cons.IH[OF rest] show ?thesis by simp
  next
    case False
    with Cons.prems n have rest: "scan_adj g w ids = Inr g'" by simp
    from Cons.IH[OF rest] show ?thesis .
  qed
qed

lemma scan_adj_state:
  "scan_adj g w ids = Inr g' \<Longrightarrow>
   state_get0 (state g') j =
     (if row_of (state g) j = row_of (state g) (prescinct_id w) \<and>
         differing (vertices g) w ids \<noteq> {}
      then Some (f32 (- district_id w)) else state_get0 (state g) j)"
proof (induction ids arbitrary: g)
  case Nil
  then show ?case by simp
next
  case (Cons a ids)
  then obtain n where n: "map_of (vertices g) a = Some n"
    by (auto split: option.splits)
  show ?case
  proof (cases "district_id w \<noteq> district_id n")
    case True
    with Cons.prems n obtain g1 where g1: "update_border g w n = Inr g1"
      and rest: "scan_adj g1 w ids = Inr g'"
      by (auto split: sum.splits)
    from update_border_state[OF g1] obtain t where
      t: "state_set0 (state g) (prescinct_id w) (- district_id w) = Inr t" "state g1 = Some t"
      by blast
    have rows: "\<And>i. row_of (state g1) i = row_of (state g) i"
      using t by (auto dest: state_set0_row_of)
    have get1: "state_get0 (state g1) j =
       (if row_of (state g) j = row_of (state g) (prescinct_id w) then Some (f32 (- district_id w))
        else state_get0 (state g) j)"
      using state_set0_get[OF t(1)] t(2) by simp
    from Cons.IH[OF rest] update_border_vertices[OF g1] rows get1 n True
    show ?thesis by (auto simp: differing_Cons)
  next
    case False
    with Cons.prems n have rest: "scan_adj g w ids = Inr g'" by simp
    from Cons.IH[OF rest] n False show ?thesis by (auto simp: differing_Cons)
  qed
qed

lemma scan_adj_succeeds:
  "\<forall>a \<in> set ids. map_of (vertices g) a \<noteq> None \<Longrightarrow>
   state_get0 (state g) (prescinct_id w) \<noteq> None \<Longrightarrow>
   \<exists>g'. scan_adj g w ids = Inr g'"
proof (induction ids arbitrary: g)
  case Nil
  then show ?case by simp
next
  case (Cons a ids)
  then obtain n where n: "map_of (vertices g) a = Some n" by auto
  show ?case
  proof (cases "district_id w \<noteq> district_id n")
    case True
    from update_border_succeeds[OF Cons.prems(2)] obtain g1 where
      g1: "update_border g w n = Inr g1" by blast
    from update_border_state[OF g1] Cons.prems(2)
    have "state_get0 (state g1) (prescinct_id w) \<noteq> None"
      by (auto simp: state_set0_get)
    moreover have "\<forall>a \<in> set ids. map_of (vertices g1) a \<noteq> None"
      using Cons.prems(1) update_border_vertices[OF g1] by simp
    ultimately obtain g' where "scan_adj g1 w ids = Inr g'"
      using Cons.IH by blast
    with n True g1 show ?thesis by simp
  next
    case False
    from Cons.IH[of g] Cons.prems obtain g' where "scan_adj g w ids = Inr g'" by auto
    with n False show ?thesis by simp
  qed
qed

lemma scan_adj_not_ValueError: "scan_adj g w ids \<noteq> Inl (ValueError, g')"
  by (induction ids arbitrary: g)
     (auto simp: update_border_not_ValueError split: option.splits sum.splits)


subsection \<open>clear_border\<close>

lemma clear_border_ConsE:
  assumes "clear_border g w (d # ds) = Inr g'"
  obtains x s t where
    "vertex_on_border g (prescinct_id w, d) = Some x"
    "district_id_on_border_of_vertex g (prescinct_id w) = Some s" "d \<in> set s"
    "state_set0 (state g) (prescinct_id w) (district_id w) = Inr t"
    "clear_border
       (g\<lparr>vertex_on_border := (vertex_on_border g)((prescinct_id w, d) := None),
          district_id_on_border_of_vertex :=
            (district_id_on_border_of_vertex g)(prescinct_id w \<mapsto> removeAll d s),
          state := Some t\<rparr>) w ds = Inr g'"
  using assms by (auto simp: Let_def split: option.splits if_splits sum.splits)

lemma clear_border_vertices:
  "clear_border g w ds = Inr g' \<Longrightarrow> vertices g' = vertices g \<and> max_district_id g' = max_district_id g"
proof (induction ds arbitrary: g)
  case Nil
  then show ?case by simp
next
  case (Cons d ds)
  from Cons.prems show ?case
    by (rule clear_border_ConsE) (drule Cons.IH, simp)
qed

lemma clear_border_vob:
  "clear_border g w ds = Inr g' \<Longrightarrow>
   vertex_on_border g' (k, x) =
     (if k = prescinct_id w \<and> x \<in> set ds then None else vertex_on_border g (k, x))"
proof (induction ds arbitrary: g)
  case Nil
  then show ?case by simp
next
  case (Cons d ds)
  from Cons.prems show ?case
    by (rule clear_border_ConsE) (drule Cons.IH, auto)
qed

lemma clear_border_dob_other:
  "clear_border g w ds = Inr g' \<Longrightarrow> k \<noteq> prescinct_id w \<Longrightarrow>
   district_id_on_border_of_vertex g' k = district_id_on_border_of_vertex g k"
proof (induction ds arbitrary: g)
  case Nil
  then show ?case by simp
next
  case (Cons d ds)
  from Cons.prems show ?case
    by (elim clear_border_ConsE) (drule Cons.IH, auto)
qed

lemma clear_border_dob_self:
  "clear_border g w ds = Inr g' \<Longrightarrow>
   district_id_on_border_of_vertex g (prescinct_id w) = Some s \<Longrightarrow>
   district_id_on_border_of_vertex g' (prescinct_id w) = Some (filter (\<lambda>x. x \<notin> set ds) s)"
proof (induction ds arbitrary: g s)
  case Nil
  then show ?case by simp
next
  case (Cons d ds)
  from Cons.prems(1) show ?case
  proof (rule clear_border_ConsE)
    fix x s' t
    assume s': "district_id_on_border_of_vertex g (prescinct_id w) = Some s'"
      and rest: "clear_border
       (g\<lparr>vertex_on_border := (vertex_on_border g)((prescinct_id w, d) := None),
          district_id_on_border_of_vertex :=
            (district_id_on_border_of_vertex g)(prescinct_id w \<mapsto> removeAll d s'),
          state := Some t\<rparr>) w ds = Inr g'"
    from s' Cons.prems(2) have "s' = s" by simp
    with Cons.IH[OF rest, of "removeAll d s"] show ?thesis
      by (simp add: removeAll_filter_not_eq conj_commute) (metis)
  qed
qed

lemma clear_border_row_of:
  "clear_border g w ds = Inr g' \<Longrightarrow> row_of (state g') j = row_of (state g) j"
proof (induction ds arbitrary: g)
  case Nil
  then show ?case by simp
next
  case (Cons d ds)
  from Cons.prems show ?case
    by (elim clear_border_ConsE) (drule Cons.IH, auto dest: state_set0_row_of)
qed

lemma clear_border_state:
  "clear_border g w ds = Inr g' \<Longrightarrow>
   state_get0 (state g') j =
     (if row_of (state g) j = row_of (state g) (prescinct_id w) \<and> ds \<noteq> []
      then Some (f32 (district_id w)) else state_get0 (state g) j)"
proof (induction ds arbitrary: g)
  case Nil
  then show ?case by simp
next
  case (Cons d ds)
  from Cons.prems show ?case
  proof (rule clear_border_ConsE)
    fix x s t
    assume t: "state_set0 (state g) (prescinct_id w) (district_id w) = Inr t"
      and rest: "clear_border
       (g\<lparr>vertex_on_border := (vertex_on_border g)((prescinct_id w, d) := None),
          district_id_on_border_of_vertex :=
            (district_id_on_border_of_vertex g)(prescinct_id w \<mapsto> removeAll d s),
          state := Some t\<rparr>) w ds = Inr g'"
    from Cons.IH[OF rest] state_set0_get[OF t] state_set0_row_of[OF t]
    show ?thesis by auto
  qed
qed


lemma clear_border_not_ValueError: "clear_border g w ds \<noteq> Inl (ValueError, g')"
  by (induction ds arbitrary: g)
     (auto simp: Let_def state_set0_not_ValueError split: option.splits sum.splits)


subsection \<open>clearing and rebuilding one vertex\<close>

lemma lock_step_vob:
  "lock_step g \<Longrightarrow> (vertex_on_border g (k, d) = None) = (d \<notin> set (border_set g k))"
  unfolding lock_step_def by blast

lemma lock_step_distinct: "lock_step g \<Longrightarrow> distinct (border_set g k)"
  unfolding lock_step_def by blast

lemma clear_vertex_vertices:
  "clear_vertex g w = Inr g' \<Longrightarrow> vertices g' = vertices g \<and> max_district_id g' = max_district_id g"
  by (auto simp: clear_vertex_def split: option.splits dest: clear_border_vertices)

lemma clear_vertex_vob:
  assumes "clear_vertex g w = Inr g'" "lock_step g"
  shows "vertex_on_border g' (k, x) =
     (if k = prescinct_id w then None else vertex_on_border g (k, x))"
proof (cases "district_id_on_border_of_vertex g (prescinct_id w)")
  case None
  then have "border_set g (prescinct_id w) = []" by (simp add: border_set_def)
  with assms(2) have "vertex_on_border g (prescinct_id w, x) = None"
    by (simp add: lock_step_vob)
  with None assms(1) show ?thesis by (auto simp: clear_vertex_def)
next
  case (Some s)
  then have bs: "border_set g (prescinct_id w) = s" by (simp add: border_set_def)
  from Some assms(1) have "clear_border g w s = Inr g'" by (simp add: clear_vertex_def)
  from clear_border_vob[OF this, of k x] assms(2) bs show ?thesis
    by (auto simp: lock_step_vob)
qed

lemma clear_vertex_dob:
  assumes "clear_vertex g w = Inr g'"
  shows "district_id_on_border_of_vertex g' k =
     (if k = prescinct_id w then map_option (\<lambda>_. []) (district_id_on_border_of_vertex g k)
      else district_id_on_border_of_vertex g k)"
proof (cases "district_id_on_border_of_vertex g (prescinct_id w)")
  case None
  with assms show ?thesis by (auto simp: clear_vertex_def)
next
  case (Some s)
  with assms have c: "clear_border g w s = Inr g'" by (simp add: clear_vertex_def)
  from clear_border_dob_self[OF c Some] clear_border_dob_other[OF c, of k] Some
  show ?thesis by auto
qed

lemma clear_vertex_border_set:
  "clear_vertex g w = Inr g' \<Longrightarrow>
   border_set g' k = (if k = prescinct_id w then [] else border_set g k)"
  by (drule clear_vertex_dob[where k = k]) (auto simp: border_set_def split: option.splits)

lemma clear_vertex_row_of:
  "clear_vertex g w = Inr g' \<Longrightarrow> row_of (state g') j = row_of (state g) j"
  by (auto simp: clear_vertex_def split: option.splits dest: clear_border_row_of)

lemma clear_vertex_state:
  assumes "clear_vertex g w = Inr g'"
  shows "state_get0 (state g') j =
     (if row_of (state g) j = row_of (state g) (prescinct_id w) \<and>
         border_set g (prescinct_id w) \<noteq> []
      then Some (f32 (district_id w)) else state_get0 (state g) j)"
proof (cases "district_id_on_border_of_vertex g (prescinct_id w)")
  case None
  with assms show ?thesis by (simp add: clear_vertex_def border_set_def)
next
  case (Some s)
  with assms have "clear_border g w s = Inr g'" by (simp add: clear_vertex_def)
  from clear_border_state[OF this, of j] Some show ?thesis by (simp add: border_set_def)
qed


lemma clear_vertex_not_ValueError: "clear_vertex g w \<noteq> Inl (ValueError, g')"
  by (auto simp: clear_vertex_def clear_border_not_ValueError split: option.splits)

text \<open>One round of the loop of lines 86 to 100.\<close>

lemma rebuild_vertex_E:
  assumes "rebuild_vertex g w = Inr g'"
  obtains g1 where "clear_vertex g w = Inr g1" "scan_adj g1 w (adj_vertices w) = Inr g'"
  using assms by (auto simp: rebuild_vertex_def split: sum.splits)

lemma rebuild_vertex_vertices:
  "rebuild_vertex g w = Inr g' \<Longrightarrow> vertices g' = vertices g"
  by (auto elim!: rebuild_vertex_E dest!: clear_vertex_vertices scan_adj_vertices)

lemma rebuild_vertex_max:
  "rebuild_vertex g w = Inr g' \<Longrightarrow> max_district_id g' = max_district_id g"
  by (auto elim!: rebuild_vertex_E dest!: clear_vertex_vertices scan_adj_max)

lemma rebuild_vertex_vob:
  assumes "rebuild_vertex g w = Inr g'" "lock_step g"
  shows "vertex_on_border g' (k, d) =
     (if k = prescinct_id w
      then (if d \<in> differing (vertices g) w (adj_vertices w)
            then Some [prescinct_id w, district_id w, d] else None)
      else vertex_on_border g (k, d))"
proof -
  from assms(1) obtain g1 where c: "clear_vertex g w = Inr g1"
    and s: "scan_adj g1 w (adj_vertices w) = Inr g'"
    by (rule rebuild_vertex_E)
  from scan_adj_vob[OF s, of k d] clear_vertex_vob[OF c assms(2), of k d]
    clear_vertex_vertices[OF c]
  show ?thesis by auto
qed

lemma rebuild_vertex_border_set:
  assumes "rebuild_vertex g w = Inr g'" "lock_step g"
  shows "set (border_set g' k) =
     (if k = prescinct_id w then differing (vertices g) w (adj_vertices w)
      else set (border_set g k))"
    and "distinct (border_set g' k)"
    and "k \<noteq> prescinct_id w \<Longrightarrow>
      district_id_on_border_of_vertex g' k = district_id_on_border_of_vertex g k"
    and "district_id_on_border_of_vertex g k \<noteq> None \<Longrightarrow>
      district_id_on_border_of_vertex g' k \<noteq> None"
proof -
  from assms(1) obtain g1 where c: "clear_vertex g w = Inr g1"
    and s: "scan_adj g1 w (adj_vertices w) = Inr g'"
    by (rule rebuild_vertex_E)
  have other: "k \<noteq> prescinct_id w \<Longrightarrow>
      district_id_on_border_of_vertex g' k = district_id_on_border_of_vertex g k"
    using scan_adj_dob_other[OF s, of k] clear_vertex_dob[OF c, of k] by simp
  then show "k \<noteq> prescinct_id w \<Longrightarrow>
      district_id_on_border_of_vertex g' k = district_id_on_border_of_vertex g k" .
  from other have bs_other: "k \<noteq> prescinct_id w \<Longrightarrow> border_set g' k = border_set g k"
    by (simp add: border_set_def)
  from scan_adj_border_set[OF s] clear_vertex_border_set[OF c, of "prescinct_id w"]
    clear_vertex_vertices[OF c]
  have self: "set (border_set g' (prescinct_id w)) = differing (vertices g) w (adj_vertices w)"
    "distinct (border_set g' (prescinct_id w))"
    by auto
  from self(1) bs_other show "set (border_set g' k) =
     (if k = prescinct_id w then differing (vertices g) w (adj_vertices w)
      else set (border_set g k))" by auto
  from self(2) bs_other lock_step_distinct[OF assms(2), of k] show "distinct (border_set g' k)"
    by (cases "k = prescinct_id w") auto
  show "district_id_on_border_of_vertex g k \<noteq> None \<Longrightarrow>
      district_id_on_border_of_vertex g' k \<noteq> None"
    using scan_adj_dob_keeps[OF s, of k] clear_vertex_dob[OF c, of k]
    by (cases "k = prescinct_id w") auto
qed

lemma rebuild_vertex_lock_step:
  assumes "rebuild_vertex g w = Inr g'" "lock_step g"
  shows "lock_step g'"
  unfolding lock_step_def
proof (intro conjI allI)
  fix k d
  show "(vertex_on_border g' (k, d) \<noteq> None) = (d \<in> set (border_set g' k))"
    using rebuild_vertex_vob[OF assms, of k d] rebuild_vertex_border_set(1)[OF assms, of k]
      lock_step_vob[OF assms(2), of k d]
    by auto
next
  fix k
  show "distinct (border_set g' k)" by (rule rebuild_vertex_border_set(2)[OF assms])
qed

lemma rebuild_vertex_row_of:
  "rebuild_vertex g w = Inr g' \<Longrightarrow> row_of (state g') j = row_of (state g) j"
  by (auto elim!: rebuild_vertex_E dest!: clear_vertex_row_of[where j = j] scan_adj_row_of[where j = j])

lemma rebuild_vertex_state:
  assumes "rebuild_vertex g w = Inr g'"
  shows "state_get0 (state g') j =
     (if row_of (state g) j = row_of (state g) (prescinct_id w)
      then (if differing (vertices g) w (adj_vertices w) \<noteq> {} then Some (f32 (- district_id w))
            else if border_set g (prescinct_id w) \<noteq> [] then Some (f32 (district_id w))
            else state_get0 (state g) j)
      else state_get0 (state g) j)"
proof -
  from assms(1) obtain g1 where c: "clear_vertex g w = Inr g1"
    and s: "scan_adj g1 w (adj_vertices w) = Inr g'"
    by (rule rebuild_vertex_E)
  from scan_adj_state[OF s, of j] clear_vertex_state[OF c, of j]
    clear_vertex_row_of[OF c] clear_vertex_vertices[OF c]
  show ?thesis by auto
qed



subsection \<open>The loop of lines 86 to 100\<close>

lemma rebuild_vertex_frame:
  assumes "rebuild_vertex g w = Inr g'" "k \<noteq> prescinct_id w"
  shows "vertex_on_border g' (k, d) = vertex_on_border g (k, d)"
    and "district_id_on_border_of_vertex g' k = district_id_on_border_of_vertex g k"
proof -
  from assms(1) obtain g1 where c: "clear_vertex g w = Inr g1"
    and s: "scan_adj g1 w (adj_vertices w) = Inr g'"
    by (rule rebuild_vertex_E)
  have "vertex_on_border g1 (k, d) = vertex_on_border g (k, d)"
  proof (cases "district_id_on_border_of_vertex g (prescinct_id w)")
    case None
    with c show ?thesis by (simp add: clear_vertex_def)
  next
    case (Some s)
    with c have "clear_border g w s = Inr g1" by (simp add: clear_vertex_def)
    from clear_border_vob[OF this, of k d] assms(2) show ?thesis by simp
  qed
  with scan_adj_vob[OF s, of k d] assms(2)
  show "vertex_on_border g' (k, d) = vertex_on_border g (k, d)" by simp
  from scan_adj_dob_other[OF s, of k] clear_vertex_dob[OF c, of k] assms(2)
  show "district_id_on_border_of_vertex g' k = district_id_on_border_of_vertex g k" by simp
qed

lemma rebuild_vertex_addressable:
  "rebuild_vertex g w = Inr g' \<Longrightarrow> state_get0 (state g) j \<noteq> None \<Longrightarrow>
   state_get0 (state g') j \<noteq> None"
  by (drule rebuild_vertex_state[where j = j]) auto

lemma rebuild_vertex_not_ValueError: "rebuild_vertex g w \<noteq> Inl (ValueError, g')"
  by (auto simp: rebuild_vertex_def clear_vertex_not_ValueError scan_adj_not_ValueError
      split: sum.splits)

lemma rebuild_loop_ConsE:
  assumes "rebuild_loop g (w # ws) = Inr g'"
  obtains g1 where "rebuild_vertex g w = Inr g1" "rebuild_loop g1 ws = Inr g'"
  using assms by (auto split: sum.splits)

text \<open>An invariant of the loop body holds after the loop.\<close>

lemma rebuild_loop_invariant:
  assumes "rebuild_loop g ws = Inr g'" "P g"
    and step: "\<And>h w h'. P h \<Longrightarrow> w \<in> set ws \<Longrightarrow> rebuild_vertex h w = Inr h' \<Longrightarrow> P h'"
  shows "P g'"
proof -
  have "rebuild_loop g us = Inr g' \<Longrightarrow> P g \<Longrightarrow> set us \<subseteq> set ws \<Longrightarrow> P g'" for us
  proof (induction us arbitrary: g)
    case Nil
    then show ?case by simp
  next
    case (Cons u us)
    from Cons.prems(1) obtain g1 where g1: "rebuild_vertex g u = Inr g1"
      and rest: "rebuild_loop g1 us = Inr g'"
      by (rule rebuild_loop_ConsE)
    from Cons.prems(3) have "u \<in> set ws" "set us \<subseteq> set ws" by auto
    from Cons.IH[OF rest step[OF Cons.prems(2) this(1) g1] this(2)] show ?case .
  qed
  from this[OF assms(1,2)] show ?thesis by simp
qed

lemma rebuild_loop_vertices:
  "rebuild_loop g ws = Inr g' \<Longrightarrow> vertices g' = vertices g"
  by (erule rebuild_loop_invariant[where P = "\<lambda>h. vertices h = vertices g"])
     (auto dest: rebuild_vertex_vertices)

lemma rebuild_loop_max:
  "rebuild_loop g ws = Inr g' \<Longrightarrow> max_district_id g' = max_district_id g"
  by (erule rebuild_loop_invariant[where P = "\<lambda>h. max_district_id h = max_district_id g"])
     (auto dest: rebuild_vertex_max)

lemma rebuild_loop_row_of:
  "rebuild_loop g ws = Inr g' \<Longrightarrow> row_of (state g') j = row_of (state g) j"
  by (erule rebuild_loop_invariant[where P = "\<lambda>h. row_of (state h) j = row_of (state g) j"])
     (auto dest: rebuild_vertex_row_of[where j = j])

lemma rebuild_loop_addressable:
  "rebuild_loop g ws = Inr g' \<Longrightarrow> state_get0 (state g) j \<noteq> None \<Longrightarrow>
   state_get0 (state g') j \<noteq> None"
  by (erule rebuild_loop_invariant[where P = "\<lambda>h. state_get0 (state h) j \<noteq> None"])
     (auto dest: rebuild_vertex_addressable[where j = j])

lemma rebuild_loop_frame:
  assumes "rebuild_loop g ws = Inr g'" "k \<notin> prescinct_id ` set ws"
  shows "vertex_on_border g' (k, d) = vertex_on_border g (k, d) \<and>
   district_id_on_border_of_vertex g' k = district_id_on_border_of_vertex g k"
  using assms(1)
proof (rule rebuild_loop_invariant[where P = "\<lambda>h. vertex_on_border h (k, d) = vertex_on_border g (k, d) \<and>
    district_id_on_border_of_vertex h k = district_id_on_border_of_vertex g k"])
  fix h w h'
  assume h: "vertex_on_border h (k, d) = vertex_on_border g (k, d) \<and>
    district_id_on_border_of_vertex h k = district_id_on_border_of_vertex g k"
    and w: "w \<in> set ws" and step: "rebuild_vertex h w = Inr h'"
  from w assms(2) have "k \<noteq> prescinct_id w" by auto
  from rebuild_vertex_frame[OF step this] h
  show "vertex_on_border h' (k, d) = vertex_on_border g (k, d) \<and>
    district_id_on_border_of_vertex h' k = district_id_on_border_of_vertex g k"
    by simp
qed simp

lemma rebuild_loop_lock_step:
  "rebuild_loop g ws = Inr g' \<Longrightarrow> lock_step g \<Longrightarrow> lock_step g'"
  by (erule rebuild_loop_invariant[where P = lock_step])
     (auto dest: rebuild_vertex_lock_step)

lemma rebuild_loop_dob_keeps:
  assumes "rebuild_loop g ws = Inr g'" "lock_step g"
    "district_id_on_border_of_vertex g k \<noteq> None"
  shows "district_id_on_border_of_vertex g' k \<noteq> None"
proof -
  have "lock_step g' \<and> district_id_on_border_of_vertex g' k \<noteq> None"
    using assms(1)
  proof (rule rebuild_loop_invariant[where
        P = "\<lambda>h. lock_step h \<and> district_id_on_border_of_vertex h k \<noteq> None"])
    show "lock_step g \<and> district_id_on_border_of_vertex g k \<noteq> None"
      using assms(2,3) by simp
  next
    fix h w h'
    assume "lock_step h \<and> district_id_on_border_of_vertex h k \<noteq> None"
      and "rebuild_vertex h w = Inr h'"
    then show "lock_step h' \<and> district_id_on_border_of_vertex h' k \<noteq> None"
      using rebuild_vertex_lock_step[of h w h'] rebuild_vertex_border_set(4)[of h w h' k]
      by blast
  qed
  then show ?thesis by simp
qed


lemma rebuild_loop_append:
  "rebuild_loop g (us @ vs) =
     (case rebuild_loop g us of Inl e \<Rightarrow> Inl e | Inr g1 \<Rightarrow> rebuild_loop g1 vs)"
  by (induction us arbitrary: g) (simp_all split: sum.splits)

lemma rebuild_loop_snocE:
  assumes "rebuild_loop g (ws @ [w]) = Inr g'"
  obtains g1 where "rebuild_loop g ws = Inr g1" "rebuild_vertex g1 w = Inr g'"
  using assms by (auto simp: rebuild_loop_append split: sum.splits)

lemma stored_same_id:
  "stored g u \<Longrightarrow> stored g w \<Longrightarrow> prescinct_id u = prescinct_id w \<Longrightarrow> u = w"
  unfolding stored_def by (metis option.inject)

lemma rebuild_loop_exact:
  "rebuild_loop g ws = Inr g' \<Longrightarrow> lock_step g \<Longrightarrow> \<forall>w \<in> set ws. stored g w \<Longrightarrow>
   w \<in> set ws \<Longrightarrow>
   vertex_on_border g' (prescinct_id w, d) =
     (if d \<in> differing (vertices g) w (adj_vertices w)
      then Some [prescinct_id w, district_id w, d] else None) \<and>
   set (border_set g' (prescinct_id w)) = differing (vertices g) w (adj_vertices w)"
proof (induction ws arbitrary: g' rule: rev_induct)
  case Nil
  from Nil(4) show ?case by simp
next
  case (snoc w1 ws)
  from snoc.prems(1) obtain g1 where g1: "rebuild_loop g ws = Inr g1"
    and last: "rebuild_vertex g1 w1 = Inr g'"
    by (rule rebuild_loop_snocE)
  have vs: "vertices g1 = vertices g" by (rule rebuild_loop_vertices[OF g1])
  have ls: "lock_step g1" by (rule rebuild_loop_lock_step[OF g1 snoc.prems(2)])
  have st1: "stored g w1" and st: "\<forall>w \<in> set ws. stored g w" and stw: "stored g w"
    using snoc.prems(3,4) by auto
  show ?case
  proof (cases "prescinct_id w = prescinct_id w1")
    case True
    with stw st1 have w: "w = w1" by (rule stored_same_id)
    have a: "vertex_on_border g' (prescinct_id w1, d) =
       (if d \<in> differing (vertices g1) w1 (adj_vertices w1)
        then Some [prescinct_id w1, district_id w1, d] else None)"
      using rebuild_vertex_vob[OF last ls, of "prescinct_id w1" d] by simp
    have b: "set (border_set g' (prescinct_id w1)) =
       differing (vertices g1) w1 (adj_vertices w1)"
      using rebuild_vertex_border_set(1)[OF last ls, of "prescinct_id w1"] by simp
    from a b show ?thesis unfolding w vs by (rule conjI)
  next
    case False
    with snoc.prems(4) have mem: "w \<in> set ws" by auto
    note IH = snoc.IH[OF g1 snoc.prems(2) st mem]
    have "vertex_on_border g' (prescinct_id w, d) = vertex_on_border g1 (prescinct_id w, d)"
      by (rule rebuild_vertex_frame(1)[OF last False])
    moreover have "border_set g' (prescinct_id w) = border_set g1 (prescinct_id w)"
      using rebuild_vertex_frame(2)[OF last False] by (simp add: border_set_def)
    ultimately show ?thesis using IH by simp
  qed
qed




lemma rebuild_loop_not_ValueError: "rebuild_loop g ws \<noteq> Inl (ValueError, g')"
  by (induction ws arbitrary: g) (auto simp: rebuild_vertex_not_ValueError split: sum.splits)


subsection \<open>get_border_vertices\<close>

lemma scan_adj_border_set_any:
  assumes "scan_adj g w ids = Inr g'"
  shows "set (border_set g' k) =
      set (border_set g k) \<union> (if k = prescinct_id w then differing (vertices g) w ids else {})"
    and "distinct (border_set g' k) = distinct (border_set g k)"
proof -
  have "set (border_set g' k) =
      set (border_set g k) \<union> (if k = prescinct_id w then differing (vertices g) w ids else {})
    \<and> distinct (border_set g' k) = distinct (border_set g k)"
  proof (cases "k = prescinct_id w")
    case True
    show ?thesis unfolding True using scan_adj_border_set[OF assms] by simp
  next
    case False
    from scan_adj_dob_other[OF assms False]
    have "border_set g' k = border_set g k" by (simp add: border_set_def)
    with False show ?thesis by simp
  qed
  then show "set (border_set g' k) =
      set (border_set g k) \<union> (if k = prescinct_id w then differing (vertices g) w ids else {})"
    and "distinct (border_set g' k) = distinct (border_set g k)" by blast+
qed

lemma scan_adj_lock_step:
  assumes "scan_adj g w ids = Inr g'" "lock_step g"
  shows "lock_step g'"
  unfolding lock_step_def
proof (intro conjI allI)
  fix k d
  note v = scan_adj_vob[OF assms(1), of k d]
  note b = scan_adj_border_set_any(1)[OF assms(1), of k]
  note l = lock_step_vob[OF assms(2), of k d]
  show "(vertex_on_border g' (k, d) \<noteq> None) = (d \<in> set (border_set g' k))"
  proof (cases "k = prescinct_id w \<and> d \<in> differing (vertices g) w ids")
    case True
    with v b show ?thesis by simp
  next
    case False
    with v have "vertex_on_border g' (k, d) = vertex_on_border g (k, d)" by simp
    moreover from False b have "(d \<in> set (border_set g' k)) = (d \<in> set (border_set g k))"
      by auto
    ultimately show ?thesis using l by simp
  qed
next
  fix k
  show "distinct (border_set g' k)"
    using scan_adj_border_set_any(2)[OF assms(1), of k] lock_step_distinct[OF assms(2), of k]
    by simp
qed

lemma scan_adj_addressable:
  "scan_adj g w ids = Inr g' \<Longrightarrow> state_get0 (state g) j \<noteq> None \<Longrightarrow>
   state_get0 (state g') j \<noteq> None"
  by (drule scan_adj_state[where j = j]) auto

lemma border_loop_append:
  "border_loop g (us @ vs) =
     (case border_loop g us of Inl e \<Rightarrow> Inl e | Inr g1 \<Rightarrow> border_loop g1 vs)"
  by (induction us arbitrary: g) (simp_all split: sum.splits)

lemma border_loop_snocE:
  assumes "border_loop g (ws @ [w]) = Inr g'"
  obtains g1 where "border_loop g ws = Inr g1" "scan_adj g1 w (adj_vertices w) = Inr g'"
  using assms by (auto simp: border_loop_append split: sum.splits)

text \<open>An invariant of the scans holds after the loop.\<close>

lemma border_loop_invariant:
  assumes "border_loop g ws = Inr g'" "P g"
    and step: "\<And>h w h'. P h \<Longrightarrow> w \<in> set ws \<Longrightarrow> scan_adj h w (adj_vertices w) = Inr h' \<Longrightarrow> P h'"
  shows "P g'"
  using assms(1) step
proof (induction ws arbitrary: g' rule: rev_induct)
  case Nil
  with assms(2) show ?case by simp
next
  case (snoc w ws)
  from snoc.prems(1) obtain g1 where g1: "border_loop g ws = Inr g1"
    and last: "scan_adj g1 w (adj_vertices w) = Inr g'"
    by (rule border_loop_snocE)
  have "P g1" by (rule snoc.IH[OF g1]) (rule snoc.prems(2), simp_all)
  from snoc.prems(2)[OF this _ last] show ?case by simp
qed

lemma border_loop_vertices:
  "border_loop g ws = Inr g' \<Longrightarrow> vertices g' = vertices g"
  by (erule border_loop_invariant[where P = "\<lambda>h. vertices h = vertices g"])
     (auto dest: scan_adj_vertices)

lemma border_loop_max:
  "border_loop g ws = Inr g' \<Longrightarrow> max_district_id g' = max_district_id g"
  by (erule border_loop_invariant[where P = "\<lambda>h. max_district_id h = max_district_id g"])
     (auto dest: scan_adj_max)

lemma border_loop_row_of:
  "border_loop g ws = Inr g' \<Longrightarrow> row_of (state g') j = row_of (state g) j"
  by (erule border_loop_invariant[where P = "\<lambda>h. row_of (state h) j = row_of (state g) j"])
     (auto dest: scan_adj_row_of[where j = j])

lemma border_loop_addressable:
  "border_loop g ws = Inr g' \<Longrightarrow> state_get0 (state g) j \<noteq> None \<Longrightarrow>
   state_get0 (state g') j \<noteq> None"
  by (erule border_loop_invariant[where P = "\<lambda>h. state_get0 (state h) j \<noteq> None"])
     (auto dest: scan_adj_addressable[where j = j])

lemma border_loop_lock_step:
  "border_loop g ws = Inr g' \<Longrightarrow> lock_step g \<Longrightarrow> lock_step g'"
  by (erule border_loop_invariant[where P = lock_step]) (auto dest: scan_adj_lock_step)

lemma border_loop_closed:
  assumes "border_loop g ws = Inr g'" "w \<in> set ws" "a \<in> set (adj_vertices w)"
  shows "map_of (vertices g) a \<noteq> None"
  using assms(1,2)
proof (induction ws arbitrary: g' rule: rev_induct)
  case Nil
  then show ?case by simp
next
  case (snoc w1 ws)
  from snoc.prems(1) obtain g1 where g1: "border_loop g ws = Inr g1"
    and last: "scan_adj g1 w1 (adj_vertices w1) = Inr g'"
    by (rule border_loop_snocE)
  show ?case
  proof (cases "w = w1")
    case True
    with scan_adj_closed[OF last, of a] assms(3) border_loop_vertices[OF g1]
    show ?thesis by simp
  next
    case False
    with snoc.prems(2) have "w \<in> set ws" by simp
    from snoc.IH[OF g1 this] show ?thesis .
  qed
qed

lemma border_loop_frame:
  assumes "border_loop g ws = Inr g'" "k \<notin> prescinct_id ` set ws"
  shows "vertex_on_border g' (k, d) = vertex_on_border g (k, d) \<and>
   district_id_on_border_of_vertex g' k = district_id_on_border_of_vertex g k"
  using assms(1)
proof (rule border_loop_invariant[where P = "\<lambda>h. vertex_on_border h (k, d) = vertex_on_border g (k, d) \<and>
    district_id_on_border_of_vertex h k = district_id_on_border_of_vertex g k"])
  fix h w h'
  assume h: "vertex_on_border h (k, d) = vertex_on_border g (k, d) \<and>
    district_id_on_border_of_vertex h k = district_id_on_border_of_vertex g k"
    and w: "w \<in> set ws" and step: "scan_adj h w (adj_vertices w) = Inr h'"
  from w assms(2) have "k \<noteq> prescinct_id w" by auto
  with scan_adj_vob[OF step, of k d] scan_adj_dob_other[OF step, of k] h
  show "vertex_on_border h' (k, d) = vertex_on_border g (k, d) \<and>
    district_id_on_border_of_vertex h' k = district_id_on_border_of_vertex g k"
    by simp
qed simp

text \<open>
  After the loop, every vertex of the list has the entries its adjacent vertices
  call for, on top of those it had.
\<close>

lemma border_loop_exact:
  "border_loop g ws = Inr g' \<Longrightarrow> \<forall>w \<in> set ws. stored g w \<Longrightarrow> w \<in> set ws \<Longrightarrow>
   vertex_on_border g' (prescinct_id w, d) =
     (if d \<in> differing (vertices g) w (adj_vertices w)
      then Some [prescinct_id w, district_id w, d]
      else vertex_on_border g (prescinct_id w, d)) \<and>
   set (border_set g' (prescinct_id w)) =
     set (border_set g (prescinct_id w)) \<union> differing (vertices g) w (adj_vertices w)"
proof (induction ws arbitrary: g' w rule: rev_induct)
  case Nil
  from Nil(3) show ?case by simp
next
  case (snoc w1 ws)
  from snoc.prems(1) obtain g1 where g1: "border_loop g ws = Inr g1"
    and last: "scan_adj g1 w1 (adj_vertices w1) = Inr g'"
    by (rule border_loop_snocE)
  have vs: "vertices g1 = vertices g" by (rule border_loop_vertices[OF g1])
  have st1: "stored g w1" and st: "\<forall>w \<in> set ws. stored g w" and stw: "stored g w"
    using snoc.prems(2,3) by auto
  show ?case
  proof (cases "prescinct_id w = prescinct_id w1")
    case True
    with stw st1 have w: "w = w1" by (rule stored_same_id)
    have old: "(d \<notin> differing (vertices g) w1 (adj_vertices w1) \<longrightarrow>
         vertex_on_border g1 (prescinct_id w1, d) = vertex_on_border g (prescinct_id w1, d)) \<and>
       set (border_set g1 (prescinct_id w1)) \<union> differing (vertices g) w1 (adj_vertices w1) =
         set (border_set g (prescinct_id w1)) \<union> differing (vertices g) w1 (adj_vertices w1)"
    proof (cases "w1 \<in> set ws")
      case True
      from snoc.IH[OF g1 st True] show ?thesis by auto
    next
      case False
      have "prescinct_id w1 \<notin> prescinct_id ` set ws"
      proof
        assume "prescinct_id w1 \<in> prescinct_id ` set ws"
        then obtain u where u: "u \<in> set ws" "prescinct_id u = prescinct_id w1" by auto
        from st u(1) have "stored g u" by simp
        from stored_same_id[OF this st1 u(2)] u(1) False show False by simp
      qed
      from border_loop_frame[OF g1 this, of d] show ?thesis
        by (simp add: border_set_def)
    qed
    have new: "vertex_on_border g' (prescinct_id w1, d) =
       (if d \<in> differing (vertices g) w1 (adj_vertices w1)
        then Some [prescinct_id w1, district_id w1, d]
        else vertex_on_border g1 (prescinct_id w1, d))"
      using scan_adj_vob[OF last, of "prescinct_id w1" d] vs by simp
    have new_set: "set (border_set g' (prescinct_id w1)) =
       set (border_set g1 (prescinct_id w1)) \<union> differing (vertices g) w1 (adj_vertices w1)"
      using scan_adj_border_set[OF last] vs by simp
    from old new new_set show ?thesis unfolding w by simp
  next
    case False
    with snoc.prems(3) have mem: "w \<in> set ws" by auto
    note IH = snoc.IH[OF g1 st mem]
    have "vertex_on_border g' (prescinct_id w, d) = vertex_on_border g1 (prescinct_id w, d)"
      using scan_adj_vob[OF last, of "prescinct_id w" d] False by simp
    moreover have "border_set g' (prescinct_id w) = border_set g1 (prescinct_id w)"
      using scan_adj_dob_other[OF last False] by (simp add: border_set_def)
    ultimately show ?thesis using IH by simp
  qed
qed

text \<open>Scanning a graph that already holds what the scan records changes no border map.\<close>

lemma scan_adj_recorded:
  assumes "scan_adj g w ids = Inr g'"
    and "\<forall>d \<in> differing (vertices g) w ids.
           vertex_on_border g (prescinct_id w, d) = Some [prescinct_id w, district_id w, d] \<and>
           d \<in> set (border_set g (prescinct_id w))"
  shows "vertex_on_border g' = vertex_on_border g"
    and "district_id_on_border_of_vertex g' = district_id_on_border_of_vertex g"
proof -
  show "vertex_on_border g' = vertex_on_border g"
  proof (rule ext)
    fix kd :: "int \<times> int"
    obtain k d where kd: "kd = (k, d)" by (cases kd)
    from scan_adj_vob[OF assms(1), of k d] assms(2)
    show "vertex_on_border g' kd = vertex_on_border g kd" unfolding kd by auto
  qed
  from assms(2) have "differing (vertices g) w ids \<subseteq> set (border_set g (prescinct_id w))"
    by auto
  from scan_adj_dob_unchanged[OF assms(1) this]
  show "district_id_on_border_of_vertex g' = district_id_on_border_of_vertex g" .
qed

subsection \<open>change_vertex_district\<close>

lemma lookup_vertices_Some:
  "lookup_vertices vs ids = Some ws \<Longrightarrow>
   set ws = {w. \<exists>a \<in> set ids. map_of vs a = Some w} \<and> (\<forall>a \<in> set ids. map_of vs a \<noteq> None)"
proof (induction ids arbitrary: ws)
  case Nil
  then show ?case by simp
next
  case (Cons a ids)
  then obtain w ws' where w: "map_of vs a = Some w" and ws': "lookup_vertices vs ids = Some ws'"
    and ws: "ws = w # ws'"
    by (auto split: option.splits)
  from Cons.IH[OF ws'] w ws show ?case by auto
qed


text \<open>What a call that returns has done, step by step.\<close>

lemma change_vertex_district_InrE:
  assumes "change_vertex_district g p d = Inr g'"
  obtains v t ws where
    "map_of (vertices g) p = Some v" "d \<noteq> district_id v"
    "vertex_on_border g (p, d) \<noteq> None"
    "state_set0 (state g) p d = Inr t"
    "lookup_vertices (AList.update p (v\<lparr>district_id := d\<rparr>) (vertices g)) (adj_vertices v) = Some ws"
    "rebuild_loop
       (g\<lparr>vertices := AList.update p (v\<lparr>district_id := d\<rparr>) (vertices g), state := Some t\<rparr>)
       (ws @ [v\<lparr>district_id := d\<rparr>]) = Inr g'"
  using assms
  by (auto simp: change_vertex_district_def Let_def split: option.splits if_splits sum.splits)

lemma change_vertex_district_not_ValueError:
  assumes "map_of (vertices g) p = Some v" "d \<noteq> district_id v"
    "vertex_on_border g (p, d) \<noteq> None"
  shows "change_vertex_district g p d \<noteq> Inl (ValueError, g')"
  using assms
  by (auto simp: change_vertex_district_def Let_def state_set0_not_ValueError
      rebuild_loop_not_ValueError split: option.splits sum.splits)


text \<open>
  The vertices the loop of a move runs on: the objects stored under the adjacent ids
  of the moved vertex, then the moved vertex, each under its own id.
\<close>

lemma map_of_moved:
  "map_of (AList.update p v' vs) k = (if k = p then Some v' else map_of vs k)"
  by (simp add: update_conv')

lemma move_list:
  assumes so: "structure_ok g" and pv: "map_of (vertices g) p = Some v"
    and g2: "vertices g2 = AList.update p (v\<lparr>district_id := d\<rparr>) (vertices g)"
    and lk: "lookup_vertices (vertices g2) (adj_vertices v) = Some ws"
  shows "\<forall>w \<in> set (ws @ [v\<lparr>district_id := d\<rparr>]). stored g2 w"
    and "prescinct_id ` set (ws @ [v\<lparr>district_id := d\<rparr>]) = insert p (set (adj_vertices v))"
proof -
  let ?v' = "v\<lparr>district_id := d\<rparr>"
  from so pv have idv: "prescinct_id v = p" by (simp add: structure_ok_def)
  have m2: "\<And>k. map_of (vertices g2) k = (if k = p then Some ?v' else map_of (vertices g) k)"
    unfolding g2 by (rule map_of_moved)
  have key: "\<And>k w. map_of (vertices g2) k = Some w \<Longrightarrow> prescinct_id w = k"
  proof -
    fix k w assume "map_of (vertices g2) k = Some w"
    then show "prescinct_id w = k"
      using m2[of k] idv so by (cases "k = p") (auto simp: structure_ok_def)
  qed
  from lookup_vertices_Some[OF lk]
  have ws: "set ws = {w. \<exists>a \<in> set (adj_vertices v). map_of (vertices g2) a = Some w}"
    and dom: "\<forall>a \<in> set (adj_vertices v). map_of (vertices g2) a \<noteq> None"
    by simp_all
  show "\<forall>w \<in> set (ws @ [?v']). stored g2 w"
  proof
    fix w assume "w \<in> set (ws @ [?v'])"
    then consider "w = ?v'" | a where "a \<in> set (adj_vertices v)" "map_of (vertices g2) a = Some w"
      using ws by auto
    then show "stored g2 w"
    proof cases
      case 1
      then show ?thesis using m2[of p] idv by (simp add: stored_def)
    next
      case 2
      from key[OF 2(2)] 2(2) show ?thesis by (simp add: stored_def)
    qed
  qed
  show "prescinct_id ` set (ws @ [?v']) = insert p (set (adj_vertices v))"
  proof (intro set_eqI iffI)
    fix k assume "k \<in> prescinct_id ` set (ws @ [?v'])"
    then obtain w where w: "w \<in> set (ws @ [?v'])" "k = prescinct_id w" by blast
    then consider "w = ?v'" | a where "a \<in> set (adj_vertices v)" "map_of (vertices g2) a = Some w"
      using ws by auto
    then show "k \<in> insert p (set (adj_vertices v))"
    proof cases
      case 1
      with w(2) idv show ?thesis by simp
    next
      case 2
      from key[OF 2(2)] 2(1) w(2) show ?thesis by simp
    qed
  next
    fix k assume "k \<in> insert p (set (adj_vertices v))"
    then consider "k = p" | "k \<in> set (adj_vertices v)" by auto
    then show "k \<in> prescinct_id ` set (ws @ [?v'])"
    proof cases
      case 1
      have "prescinct_id ?v' = p" using idv by simp
      then show ?thesis unfolding 1 by (metis image_eqI in_set_conv_decomp)
    next
      case 2
      with dom obtain w where w: "map_of (vertices g2) k = Some w" by auto
      with 2 ws have "w \<in> set ws" by auto
      moreover from key[OF w] have "prescinct_id w = k" .
      ultimately show ?thesis by force
    qed
  qed
qed

lemma differing_cong:
  "\<forall>a \<in> set ids. map_of vs a = map_of vs' a \<Longrightarrow> differing vs w ids = differing vs' w ids"
  by (auto simp: differing_def)

text \<open>
  The graph in the middle of a move, after lines 81 and 82: the moved vertex has its
  new district, the border maps are those of before.
\<close>

lemma move_mid:
  assumes c: "consistent g" and pv: "map_of (vertices g) p = Some v"
    and g2: "vertices g2 = AList.update p (v\<lparr>district_id := d\<rparr>) (vertices g)"
      "vertex_on_border g2 = vertex_on_border g"
      "district_id_on_border_of_vertex g2 = district_id_on_border_of_vertex g"
    and t: "state_set0 (state g) p d = Inr t" "state g2 = Some t"
  shows "lock_step g2" and "closed g2" and "distinct (map fst (vertices g2))"
    and "\<And>k w. map_of (vertices g2) k = Some w \<Longrightarrow>
          prescinct_id w = k \<and> state_get0 (state g2) k \<noteq> None"
proof -
  let ?v' = "v\<lparr>district_id := d\<rparr>"
  from c have so: "structure_ok g" and cl: "closed g" and ls: "lock_step g"
    by (simp_all add: consistent_def)
  have m2: "\<And>k. map_of (vertices g2) k = (if k = p then Some ?v' else map_of (vertices g) k)"
    unfolding g2(1) by (rule map_of_moved)
  from so pv have idv: "prescinct_id v = p" by (simp add: structure_ok_def)
  show "lock_step g2" using ls g2(2,3) by (simp add: lock_step_def border_set_def)
  show "distinct (map fst (vertices g2))"
    unfolding g2(1) using so by (simp add: structure_ok_def distinct_update)
  have dom: "\<And>k. map_of (vertices g2) k \<noteq> None \<longleftrightarrow> map_of (vertices g) k \<noteq> None"
    using m2 pv by simp
  show "closed g2"
    unfolding closed_def
  proof (intro allI impI ballI)
    fix k w a assume kw: "map_of (vertices g2) k = Some w" and a: "a \<in> set (adj_vertices w)"
    have "\<exists>w0. map_of (vertices g) k = Some w0 \<and> adj_vertices w0 = adj_vertices w"
      using kw m2[of k] pv by (cases "k = p") auto
    with cl a have "map_of (vertices g) a \<noteq> None" by (auto simp: closed_def)
    then show "map_of (vertices g2) a \<noteq> None" using dom by simp
  qed
  fix k w assume kw: "map_of (vertices g2) k = Some w"
  have id: "prescinct_id w = k"
    using kw m2[of k] idv so by (cases "k = p") (auto simp: structure_ok_def)
  from kw dom[of k] so have "state_get0 (state g) k \<noteq> None"
    by (auto simp: structure_ok_def)
  with state_set0_get[OF t(1), of k] t(2) have "state_get0 (state g2) k \<noteq> None"
    by auto
  with id show "prescinct_id w = k \<and> state_get0 (state g2) k \<noteq> None" by simp
qed

lemma move_vertices:
  assumes "change_vertex_district g p d = Inr g'" "map_of (vertices g) p = Some v"
  shows "vertices g' = AList.update p (v\<lparr>district_id := d\<rparr>) (vertices g)"
  using assms(1)
proof (rule change_vertex_district_InrE)
  fix v0 t ws
  assume "map_of (vertices g) p = Some v0"
    and "rebuild_loop
       (g\<lparr>vertices := AList.update p (v0\<lparr>district_id := d\<rparr>) (vertices g), state := Some t\<rparr>)
       (ws @ [v0\<lparr>district_id := d\<rparr>]) = Inr g'"
  with assms(2) rebuild_loop_vertices show ?thesis by fastforce
qed

lemma move_max:
  assumes "change_vertex_district g p d = Inr g'"
  shows "max_district_id g' = max_district_id g"
  using assms by (rule change_vertex_district_InrE) (drule rebuild_loop_max, simp)

text \<open>A move leaves alone what is recorded for the ids outside its list.\<close>

lemma move_frame:
  assumes so: "structure_ok g" and mv: "change_vertex_district g p d = Inr g'"
    and pv: "map_of (vertices g) p = Some v"
    and k: "k \<noteq> p" "k \<notin> set (adj_vertices v)"
  shows "vertex_on_border g' (k, x) = vertex_on_border g (k, x)"
    and "district_id_on_border_of_vertex g' k = district_id_on_border_of_vertex g k"
proof -
  from mv obtain v0 t ws where v0: "map_of (vertices g) p = Some v0"
    and lk: "lookup_vertices (AList.update p (v0\<lparr>district_id := d\<rparr>) (vertices g))
        (adj_vertices v0) = Some ws"
    and loop: "rebuild_loop
       (g\<lparr>vertices := AList.update p (v0\<lparr>district_id := d\<rparr>) (vertices g), state := Some t\<rparr>)
       (ws @ [v0\<lparr>district_id := d\<rparr>]) = Inr g'"
    by (rule change_vertex_district_InrE)
  from v0 pv have [simp]: "v0 = v" by simp
  let ?g2 = "g\<lparr>vertices := AList.update p (v\<lparr>district_id := d\<rparr>) (vertices g), state := Some t\<rparr>"
  have "prescinct_id ` set (ws @ [v\<lparr>district_id := d\<rparr>]) = insert p (set (adj_vertices v))"
    by (rule move_list(2)[OF so pv, of ?g2]) (use lk in simp_all)
  with k have "k \<notin> prescinct_id ` set (ws @ [v\<lparr>district_id := d\<rparr>])" by simp
  from rebuild_loop_frame[OF _ this, of ?g2 g' x] loop
  show "vertex_on_border g' (k, x) = vertex_on_border g (k, x)"
    and "district_id_on_border_of_vertex g' k = district_id_on_border_of_vertex g k"
    by simp_all
qed

lemma change_vertex_district_Inr_at:
  assumes "change_vertex_district g p d = Inr g'" "map_of (vertices g) p = Some v"
  obtains t ws where
    "d \<noteq> district_id v" "vertex_on_border g (p, d) \<noteq> None"
    "state_set0 (state g) p d = Inr t"
    "lookup_vertices (AList.update p (v\<lparr>district_id := d\<rparr>) (vertices g)) (adj_vertices v) = Some ws"
    "rebuild_loop
       (g\<lparr>vertices := AList.update p (v\<lparr>district_id := d\<rparr>) (vertices g), state := Some t\<rparr>)
       (ws @ [v\<lparr>district_id := d\<rparr>]) = Inr g'"
  using assms
  by (auto simp: change_vertex_district_def Let_def split: option.splits if_splits sum.splits)

text \<open>
  What a move that returns leaves for an id of its list: exactly the entries that the
  adjacent vertices of the stored vertex call for.
\<close>

lemma move_rebuilt:
  assumes c: "consistent g" and mv: "change_vertex_district g p d = Inr g'"
    and pv: "map_of (vertices g) p = Some v"
    and k: "k = p \<or> k \<in> set (adj_vertices v)"
  shows "\<exists>w. map_of (vertices g') k = Some w \<and>
     (\<forall>x. vertex_on_border g' (k, x) =
        (if x \<in> differing (vertices g') w (adj_vertices w)
         then Some [k, district_id w, x] else None)) \<and>
     set (border_set g' k) = differing (vertices g') w (adj_vertices w)"
proof -
  from mv pv obtain t ws where t: "state_set0 (state g) p d = Inr t"
    and lk: "lookup_vertices (AList.update p (v\<lparr>district_id := d\<rparr>) (vertices g))
        (adj_vertices v) = Some ws"
    and loop: "rebuild_loop
       (g\<lparr>vertices := AList.update p (v\<lparr>district_id := d\<rparr>) (vertices g), state := Some t\<rparr>)
       (ws @ [v\<lparr>district_id := d\<rparr>]) = Inr g'"
    by (rule change_vertex_district_Inr_at)
  let ?v' = "v\<lparr>district_id := d\<rparr>"
  let ?g2 = "g\<lparr>vertices := AList.update p ?v' (vertices g), state := Some t\<rparr>"
  from c have so: "structure_ok g" by (simp add: consistent_def)
  have ls2: "lock_step ?g2" by (rule move_mid(1)[OF c pv _ _ _ t]) simp_all
  have st: "\<forall>w \<in> set (ws @ [?v']). stored ?g2 w"
    by (rule move_list(1)[OF so pv]) (use lk in simp_all)
  have ids: "prescinct_id ` set (ws @ [?v']) = insert p (set (adj_vertices v))"
    by (rule move_list(2)[OF so pv, of ?g2]) (use lk in simp_all)
  from k have "k \<in> insert p (set (adj_vertices v))" by auto
  then have "k \<in> prescinct_id ` set (ws @ [?v'])" unfolding ids .
  then obtain w where w: "w \<in> set (ws @ [?v'])" "prescinct_id w = k" by (rule imageE) simp
  have vs: "vertices g' = vertices ?g2" using loop by (rule rebuild_loop_vertices)
  from st w(1) have "stored ?g2 w" by (rule bspec)
  then have kw: "map_of (vertices g') k = Some w" unfolding vs w(2)[symmetric] stored_def .
  have ex: "\<And>x. vertex_on_border g' (k, x) =
        (if x \<in> differing (vertices g') w (adj_vertices w)
         then Some [k, district_id w, x] else None)"
    using rebuild_loop_exact[OF loop ls2 st w(1)] unfolding vs w(2) by (rule conjunct1)
  have bs: "set (border_set g' k) = differing (vertices g') w (adj_vertices w)"
    using rebuild_loop_exact[OF loop ls2 st w(1), of 0] unfolding vs w(2) by (rule conjunct2)
  show ?thesis
  proof (intro exI conjI allI)
    show "map_of (vertices g') k = Some w" by (rule kw)
    show "set (border_set g' k) = differing (vertices g') w (adj_vertices w)" by (rule bs)
    fix x
    show "vertex_on_border g' (k, x) =
        (if x \<in> differing (vertices g') w (adj_vertices w)
         then Some [k, district_id w, x] else None)" by (rule ex)
  qed
qed

lemma move_consistent:
  assumes c: "consistent g" and mv: "change_vertex_district g p d = Inr g'"
  shows "consistent g'"
proof -
  from mv obtain v t ws where pv: "map_of (vertices g) p = Some v"
    and t: "state_set0 (state g) p d = Inr t"
    and lk: "lookup_vertices (AList.update p (v\<lparr>district_id := d\<rparr>) (vertices g))
        (adj_vertices v) = Some ws"
    and loop: "rebuild_loop
       (g\<lparr>vertices := AList.update p (v\<lparr>district_id := d\<rparr>) (vertices g), state := Some t\<rparr>)
       (ws @ [v\<lparr>district_id := d\<rparr>]) = Inr g'"
    by (rule change_vertex_district_InrE)
  let ?v' = "v\<lparr>district_id := d\<rparr>"
  let ?g2 = "g\<lparr>vertices := AList.update p ?v' (vertices g), state := Some t\<rparr>"
  from c have so: "structure_ok g" and d_ok: "descriptors_ok g" by (simp_all add: consistent_def)
  note mid = move_mid[OF c pv _ _ _ t, of ?g2, simplified]
  have vs: "vertices g' = vertices ?g2" using loop by (rule rebuild_loop_vertices)
  have "structure_ok g'"
    unfolding structure_ok_def vs
  proof (intro conjI allI impI)
    show "distinct (map fst (vertices ?g2))" using mid(3) by simp
  next
    fix k w assume kw: "map_of (vertices ?g2) k = Some w"
    have "prescinct_id w = k \<and> state_get0 (state ?g2) k \<noteq> None"
      by (rule move_mid(4)[OF c pv _ _ _ t _ kw]) simp_all
    with rebuild_loop_addressable[OF loop, of k]
    show "prescinct_id w = k" and "state_get0 (state g') k \<noteq> None" by simp_all
  qed
  moreover have "closed g'"
    using move_mid(2)[OF c pv _ _ _ t, of ?g2] vs by (simp add: closed_def)
  moreover have "lock_step g'"
    by (rule rebuild_loop_lock_step[OF loop]) (rule move_mid(1)[OF c pv _ _ _ t], simp_all)
  moreover have "descriptors_ok g'"
    unfolding descriptors_ok_def
  proof (intro allI impI)
    fix k x y assume y: "vertex_on_border g' (k, x) = Some y"
    show "\<exists>w. map_of (vertices g') k = Some w \<and> y = [k, district_id w, x]"
    proof (cases "k = p \<or> k \<in> set (adj_vertices v)")
      case True
      from move_rebuilt[OF c mv pv True] obtain w where w: "map_of (vertices g') k = Some w"
        and vw: "vertex_on_border g' (k, x) =
          (if x \<in> differing (vertices g') w (adj_vertices w)
           then Some [k, district_id w, x] else None)"
        by blast
      from vw y have "y = [k, district_id w, x]" by (simp split: if_splits)
      with w show ?thesis by blast
    next
      case False
      then have k: "k \<noteq> p" "k \<notin> set (adj_vertices v)" by simp_all
      from move_frame(1)[OF so mv pv k, of x] y
      have "vertex_on_border g (k, x) = Some y" by simp
      with d_ok obtain w where "map_of (vertices g) k = Some w" "y = [k, district_id w, x]"
        unfolding descriptors_ok_def by blast
      with k(1) show ?thesis unfolding vs by (simp add: map_of_moved)
    qed
  qed
  ultimately show ?thesis by (simp add: consistent_def)
qed

lemma adj_symmetric_transfer:
  assumes adj: "\<And>k. map_option adj_vertices (map_of (vertices h) k) =
      map_option adj_vertices (map_of (vertices g) k)"
    and sym: "adj_symmetric g"
  shows "adj_symmetric h"
  unfolding adj_symmetric_def
proof (intro allI impI)
  fix k w a n
  assume kw: "map_of (vertices h) k = Some w" and a: "a \<in> set (adj_vertices w)"
    and an: "map_of (vertices h) a = Some n"
  from adj[of k] kw obtain w0 where w0: "map_of (vertices g) k = Some w0"
    "adj_vertices w0 = adj_vertices w"
    by (cases "map_of (vertices g) k") auto
  from adj[of a] an obtain n0 where n0: "map_of (vertices g) a = Some n0"
    "adj_vertices n0 = adj_vertices n"
    by (cases "map_of (vertices g) a") auto
  from sym w0 n0 a show "k \<in> set (adj_vertices n)"
    unfolding adj_symmetric_def by metis
qed

lemma move_adj_symmetric:
  assumes "change_vertex_district g p d = Inr g'"
  shows "adj_symmetric g' = adj_symmetric g"
proof -
  from assms obtain v where pv: "map_of (vertices g) p = Some v"
    by (rule change_vertex_district_InrE)
  have vs: "vertices g' = AList.update p (v\<lparr>district_id := d\<rparr>) (vertices g)"
    by (rule move_vertices[OF assms pv])
  have adj: "\<And>k. map_option adj_vertices (map_of (vertices g') k) =
      map_option adj_vertices (map_of (vertices g) k)"
    unfolding vs using pv by (simp add: map_of_moved)
  from adj_symmetric_transfer[of g' g, OF adj] adj_symmetric_transfer[of g g', OF adj[symmetric]]
  show ?thesis by blast
qed

text \<open>With a symmetric adjacency, a move keeps the recorded sets exact.\<close>

lemma move_exact:
  assumes c: "consistent g" and e: "exact g" and sym: "adj_symmetric g"
    and mv: "change_vertex_district g p d = Inr g'"
  shows "exact g'"
  unfolding exact_def
proof (intro allI impI)
  fix k w assume kw: "map_of (vertices g') k = Some w"
  from mv obtain v where pv: "map_of (vertices g) p = Some v"
    by (rule change_vertex_district_InrE)
  from c have so: "structure_ok g" by (simp add: consistent_def)
  have vs: "vertices g' = AList.update p (v\<lparr>district_id := d\<rparr>) (vertices g)"
    by (rule move_vertices[OF mv pv])
  show "set (border_set g' k) = differing (vertices g') w (adj_vertices w)"
  proof (cases "k = p \<or> k \<in> set (adj_vertices v)")
    case True
    from move_rebuilt[OF c mv pv True] kw show ?thesis by auto
  next
    case False
    then have k: "k \<noteq> p" "k \<notin> set (adj_vertices v)" by simp_all
    from kw k(1) have kw0: "map_of (vertices g) k = Some w"
      unfolding vs by (simp add: map_of_moved)
    have "p \<notin> set (adj_vertices w)"
    proof
      assume "p \<in> set (adj_vertices w)"
      with sym kw0 pv have "k \<in> set (adj_vertices v)"
        unfolding adj_symmetric_def by blast
      with k(2) show False by simp
    qed
    then have "\<forall>a \<in> set (adj_vertices w). map_of (vertices g) a = map_of (vertices g') a"
      unfolding vs by (auto simp: map_of_moved)
    then have "differing (vertices g) w (adj_vertices w) =
        differing (vertices g') w (adj_vertices w)"
      by (rule differing_cong)
    moreover have "border_set g' k = border_set g k"
      using move_frame(2)[OF so mv pv k] by (simp add: border_set_def)
    moreover from e kw0 have "set (border_set g k) = differing (vertices g) w (adj_vertices w)"
      by (simp add: exact_def)
    ultimately show ?thesis by simp
  qed
qed


subsection \<open>What every reachable graph satisfies\<close>

lemma fresh_list:
  assumes "structure_ok g"
  shows "\<forall>w \<in> set (map snd (vertices g)). stored g w"
    and "\<And>k w. map_of (vertices g) k = Some w \<Longrightarrow>
          w \<in> set (map snd (vertices g)) \<and> prescinct_id w = k"
proof -
  from assms have d: "distinct (map fst (vertices g))"
    and key: "\<And>k w. map_of (vertices g) k = Some w \<Longrightarrow> prescinct_id w = k"
    by (simp_all add: structure_ok_def)
  show "\<forall>w \<in> set (map snd (vertices g)). stored g w"
  proof
    fix w assume "w \<in> set (map snd (vertices g))"
    then obtain k where "(k, w) \<in> set (vertices g)" by auto
    with d have m: "map_of (vertices g) k = Some w" by simp
    from key[OF m] m show "stored g w" by (simp add: stored_def)
  qed
  fix k w assume m: "map_of (vertices g) k = Some w"
  then have "(k, w) \<in> set (vertices g)" by (rule map_of_SomeD)
  then have "w \<in> set (map snd (vertices g))" by force
  with key[OF m] show "w \<in> set (map snd (vertices g)) \<and> prescinct_id w = k" by simp
qed

lemma fresh_lock_step: "freshly_constructed g \<Longrightarrow> lock_step g"
  by (simp add: freshly_constructed_def lock_step_def border_set_def)

text \<open>Border discovery on a freshly constructed graph.\<close>

lemma discovery_vertices:
  "get_border_vertices g0 = Inr g \<Longrightarrow> vertices g = vertices g0"
  unfolding get_border_vertices_def by (rule border_loop_vertices)

lemma discovery_entries:
  assumes f: "freshly_constructed g0" and gb: "get_border_vertices g0 = Inr g"
  shows "vertex_on_border g (k, d) =
     (case map_of (vertices g) k of
        None \<Rightarrow> None
      | Some w \<Rightarrow> if d \<in> differing (vertices g) w (adj_vertices w)
                  then Some [k, district_id w, d] else None)"
    and "set (border_set g k) =
     (case map_of (vertices g) k of
        None \<Rightarrow> {}
      | Some w \<Rightarrow> differing (vertices g) w (adj_vertices w))"
proof -
  from f have so: "structure_ok g0" and e: "vertex_on_border g0 = Map.empty"
    "district_id_on_border_of_vertex g0 = Map.empty"
    by (simp_all add: freshly_constructed_def)
  from gb have loop: "border_loop g0 (map snd (vertices g0)) = Inr g"
    by (simp add: get_border_vertices_def)
  have vs: "vertices g = vertices g0" by (rule discovery_vertices[OF gb])
  have both: "vertex_on_border g (k, d) =
     (case map_of (vertices g) k of
        None \<Rightarrow> None
      | Some w \<Rightarrow> if d \<in> differing (vertices g) w (adj_vertices w)
                  then Some [k, district_id w, d] else None) \<and>
    set (border_set g k) =
     (case map_of (vertices g) k of
        None \<Rightarrow> {}
      | Some w \<Rightarrow> differing (vertices g) w (adj_vertices w))"
  proof (cases "map_of (vertices g0) k")
    case None
    have "k \<notin> prescinct_id ` set (map snd (vertices g0))"
    proof
      assume "k \<in> prescinct_id ` set (map snd (vertices g0))"
      then obtain w where "w \<in> set (map snd (vertices g0))" "prescinct_id w = k" by blast
      with fresh_list(1)[OF so] have "map_of (vertices g0) k = Some w"
        by (auto simp: stored_def)
      with None show False by simp
    qed
    from border_loop_frame[OF loop this, of d] None e show ?thesis
      unfolding vs by (simp add: border_set_def)
  next
    case (Some w)
    from fresh_list(2)[OF so Some] have w: "w \<in> set (map snd (vertices g0))"
      "prescinct_id w = k" by simp_all
    from border_loop_exact[OF loop fresh_list(1)[OF so] w(1), of d] Some e w(2)
    show ?thesis unfolding vs by (simp add: border_set_def)
  qed
  from both show "vertex_on_border g (k, d) =
     (case map_of (vertices g) k of
        None \<Rightarrow> None
      | Some w \<Rightarrow> if d \<in> differing (vertices g) w (adj_vertices w)
                  then Some [k, district_id w, d] else None)" by (rule conjunct1)
  from both show "set (border_set g k) =
     (case map_of (vertices g) k of
        None \<Rightarrow> {}
      | Some w \<Rightarrow> differing (vertices g) w (adj_vertices w))" by (rule conjunct2)
qed

lemma discovery_consistent:
  assumes f: "freshly_constructed g0" and gb: "get_border_vertices g0 = Inr g"
  shows "consistent g" and "exact g"
proof -
  from f have so: "structure_ok g0" by (simp add: freshly_constructed_def)
  from gb have loop: "border_loop g0 (map snd (vertices g0)) = Inr g"
    by (simp add: get_border_vertices_def)
  have vs: "vertices g = vertices g0" by (rule discovery_vertices[OF gb])
  have "structure_ok g"
    using so border_loop_addressable[OF loop] unfolding structure_ok_def vs by blast
  moreover have "closed g"
    unfolding closed_def vs
  proof (intro allI impI ballI)
    fix k w a assume "map_of (vertices g0) k = Some w" "a \<in> set (adj_vertices w)"
    with fresh_list(2)[OF so] border_loop_closed[OF loop, of w a]
    show "map_of (vertices g0) a \<noteq> None" by blast
  qed
  moreover have "lock_step g"
    by (rule border_loop_lock_step[OF loop fresh_lock_step[OF f]])
  moreover have "descriptors_ok g"
    unfolding descriptors_ok_def
  proof (intro allI impI)
    fix k d x assume "vertex_on_border g (k, d) = Some x"
    with discovery_entries(1)[OF f gb, of k d]
    show "\<exists>w. map_of (vertices g) k = Some w \<and> x = [k, district_id w, d]"
      by (cases "map_of (vertices g) k") (auto split: if_splits)
  qed
  ultimately show "consistent g" by (simp add: consistent_def)
  show "exact g"
    unfolding exact_def using discovery_entries(2)[OF f gb] by simp
qed

lemma reachable_consistent: "reachable g0 g \<Longrightarrow> consistent g"
  by (induction rule: reachable.induct) (auto intro: discovery_consistent(1) move_consistent)

lemma reachable_exact: "reachable g0 g \<Longrightarrow> adj_symmetric g \<Longrightarrow> exact g"
proof (induction rule: reachable.induct)
  case (discovered g)
  then show ?case by (simp add: discovery_consistent(2))
next
  case (moved g p d g')
  from moved.prems move_adj_symmetric[OF moved.hyps(2)] have "adj_symmetric g" by simp
  from move_exact[OF reachable_consistent[OF moved.hyps(1)] moved.IH[OF this] this moved.hyps(2)]
  show ?case .
qed

lemma move_dob_keeps:
  assumes c: "consistent g" and mv: "change_vertex_district g p d = Inr g'"
    and k: "district_id_on_border_of_vertex g k \<noteq> None"
  shows "district_id_on_border_of_vertex g' k \<noteq> None"
proof -
  from mv obtain v where pv: "map_of (vertices g) p = Some v"
    by (rule change_vertex_district_InrE)
  from mv pv obtain t ws where t: "state_set0 (state g) p d = Inr t"
    and loop: "rebuild_loop
       (g\<lparr>vertices := AList.update p (v\<lparr>district_id := d\<rparr>) (vertices g), state := Some t\<rparr>)
       (ws @ [v\<lparr>district_id := d\<rparr>]) = Inr g'"
    by (rule change_vertex_district_Inr_at)
  let ?g2 = "g\<lparr>vertices := AList.update p (v\<lparr>district_id := d\<rparr>) (vertices g), state := Some t\<rparr>"
  have "lock_step ?g2" by (rule move_mid(1)[OF c pv _ _ _ t]) simp_all
  from rebuild_loop_dob_keeps[OF loop this, of k] k show ?thesis by simp
qed

lemma border_loop_succeeds:
  "\<forall>w \<in> set ws. state_get0 (state g) (prescinct_id w) \<noteq> None \<and>
      (\<forall>a \<in> set (adj_vertices w). map_of (vertices g) a \<noteq> None) \<Longrightarrow>
   \<exists>g'. border_loop g ws = Inr g'"
proof (induction ws arbitrary: g)
  case Nil
  then show ?case by simp
next
  case (Cons w ws)
  from Cons.prems have "\<forall>a \<in> set (adj_vertices w). map_of (vertices g) a \<noteq> None"
    and "state_get0 (state g) (prescinct_id w) \<noteq> None" by simp_all
  from scan_adj_succeeds[OF this] obtain g1 where
    g1: "scan_adj g w (adj_vertices w) = Inr g1" by blast
  have "\<forall>w \<in> set ws. state_get0 (state g1) (prescinct_id w) \<noteq> None \<and>
      (\<forall>a \<in> set (adj_vertices w). map_of (vertices g1) a \<noteq> None)"
  proof
    fix u assume u: "u \<in> set ws"
    with Cons.prems have "state_get0 (state g) (prescinct_id u) \<noteq> None"
      and "\<forall>a \<in> set (adj_vertices u). map_of (vertices g) a \<noteq> None" by simp_all
    with scan_adj_addressable[OF g1] scan_adj_vertices[OF g1]
    show "state_get0 (state g1) (prescinct_id u) \<noteq> None \<and>
      (\<forall>a \<in> set (adj_vertices u). map_of (vertices g1) a \<noteq> None)" by simp
  qed
  from Cons.IH[OF this] g1 show ?case by simp
qed

text \<open>Border discovery returns on every graph whose adjacent ids are all vertex ids.\<close>

lemma discovery_succeeds:
  assumes "structure_ok g" "closed g"
  shows "\<exists>g'. get_border_vertices g = Inr g'"
  unfolding get_border_vertices_def
proof (rule border_loop_succeeds, rule ballI)
  fix w assume "w \<in> set (map snd (vertices g))"
  with fresh_list(1)[OF assms(1)] have "stored g w" by blast
  then have "map_of (vertices g) (prescinct_id w) = Some w"
    by (simp add: stored_def)
  with assms show "state_get0 (state g) (prescinct_id w) \<noteq> None \<and>
      (\<forall>a \<in> set (adj_vertices w). map_of (vertices g) a \<noteq> None)"
    unfolding structure_ok_def closed_def by blast
qed

text \<open>A second discovery finds every entry in place.\<close>

lemma discovery_again:
  assumes f: "freshly_constructed g0" and gb: "get_border_vertices g0 = Inr g1"
    and again: "get_border_vertices g1 = Inr g2"
  shows "vertices g2 = vertices g1 \<and> vertex_on_border g2 = vertex_on_border g1 \<and>
     district_id_on_border_of_vertex g2 = district_id_on_border_of_vertex g1"
proof -
  from f have so: "structure_ok g0" by (simp add: freshly_constructed_def)
  have vs: "vertices g1 = vertices g0" by (rule discovery_vertices[OF gb])
  from again have loop: "border_loop g1 (map snd (vertices g0)) = Inr g2"
    by (simp add: get_border_vertices_def vs)
  show ?thesis
    using loop
  proof (rule border_loop_invariant[where P = "\<lambda>h. vertices h = vertices g1 \<and>
      vertex_on_border h = vertex_on_border g1 \<and>
      district_id_on_border_of_vertex h = district_id_on_border_of_vertex g1"])
    show "vertices g1 = vertices g1 \<and> vertex_on_border g1 = vertex_on_border g1 \<and>
      district_id_on_border_of_vertex g1 = district_id_on_border_of_vertex g1" by simp
  next
    fix h w h'
    assume h: "vertices h = vertices g1 \<and> vertex_on_border h = vertex_on_border g1 \<and>
      district_id_on_border_of_vertex h = district_id_on_border_of_vertex g1"
      and w: "w \<in> set (map snd (vertices g0))"
      and step: "scan_adj h w (adj_vertices w) = Inr h'"
    from fresh_list(1)[OF so] w have "stored g0 w" by blast
    then have kw: "map_of (vertices g1) (prescinct_id w) = Some w"
      unfolding vs by (simp add: stored_def)
    have bs: "border_set h (prescinct_id w) = border_set g1 (prescinct_id w)"
      using h by (simp add: border_set_def)
    have rec: "\<forall>d \<in> differing (vertices h) w (adj_vertices w).
        vertex_on_border h (prescinct_id w, d) = Some [prescinct_id w, district_id w, d] \<and>
        d \<in> set (border_set h (prescinct_id w))"
      using discovery_entries(1)[OF f gb, of "prescinct_id w"]
        discovery_entries(2)[OF f gb, of "prescinct_id w"] kw h bs
      by simp
    from scan_adj_recorded[OF step rec] scan_adj_vertices[OF step] h
    show "vertices h' = vertices g1 \<and> vertex_on_border h' = vertex_on_border g1 \<and>
      district_id_on_border_of_vertex h' = district_id_on_border_of_vertex g1"
      by simp
  qed
qed

subsection \<open>The state tensor\<close>

lemma mirrored_at_half: "mirrored_at g k u \<Longrightarrow> half_mirrored_at g k u"
  by (simp add: mirrored_at_def half_mirrored_at_def)

lemma rows_apart_transfer:
  assumes "rows_apart g" and "\<And>j. row_of (state g') j = row_of (state g) j"
    and "\<And>k. (map_of (vertices g') k \<noteq> None) = (map_of (vertices g) k \<noteq> None)"
  shows "rows_apart g'"
  using assms unfolding rows_apart_def by metis

lemma scan_adj_mirrored_at:
  assumes step: "scan_adj h w ids = Inr h'" and ra: "rows_apart h" and sw: "stored h w"
    and ku: "map_of (vertices h) k = Some u" and m: "mirrored_at h k u"
  shows "mirrored_at h' k u"
proof (cases "k = prescinct_id w")
  case True
  with sw ku have u: "u = w" by (simp add: stored_def)
  note st = scan_adj_state[OF step, of "prescinct_id w"]
  note bs = scan_adj_border_set_any(1)[OF step, of "prescinct_id w"]
  show ?thesis
  proof (cases "differing (vertices h) w ids = {}")
    case True
    with bs have "(border_set h' (prescinct_id w) = []) = (border_set h (prescinct_id w) = [])"
      by (metis set_empty sup_bot.right_neutral if_P)
    with st True m show ?thesis
      unfolding mirrored_at_def \<open>k = prescinct_id w\<close> u by simp
  next
    case False
    with bs have "border_set h' (prescinct_id w) \<noteq> []" by auto
    with st False show ?thesis
      unfolding mirrored_at_def \<open>k = prescinct_id w\<close> u by simp
  qed
next
  case False
  from sw have "map_of (vertices h) (prescinct_id w) \<noteq> None" by (simp add: stored_def)
  with ra ku False have "row_of (state h) k \<noteq> row_of (state h) (prescinct_id w)"
    unfolding rows_apart_def by (metis option.distinct(1))
  with scan_adj_state[OF step, of k]
  have "state_get0 (state h') k = state_get0 (state h) k" by simp
  moreover have "border_set h' k = border_set h k"
    using scan_adj_dob_other[OF step False] by (simp add: border_set_def)
  ultimately show ?thesis using m by (simp add: mirrored_at_def)
qed

lemma discovery_mirrored:
  assumes f: "freshly_constructed g0" and ra: "rows_apart g0" and m: "mirrored g0"
    and gb: "get_border_vertices g0 = Inr g"
  shows "mirrored g" and "rows_apart g"
proof -
  from f have so: "structure_ok g0" by (simp add: freshly_constructed_def)
  from gb have loop: "border_loop g0 (map snd (vertices g0)) = Inr g"
    by (simp add: get_border_vertices_def)
  have vs: "vertices g = vertices g0" by (rule discovery_vertices[OF gb])
  show "rows_apart g"
  proof (rule rows_apart_transfer[OF ra])
    fix j show "row_of (state g) j = row_of (state g0) j" by (rule border_loop_row_of[OF loop])
  next
    fix k show "(map_of (vertices g) k \<noteq> None) = (map_of (vertices g0) k \<noteq> None)"
      unfolding vs ..
  qed
  have "vertices g = vertices g0 \<and> rows_apart g \<and> mirrored g"
    using loop
  proof (rule border_loop_invariant[where
        P = "\<lambda>h. vertices h = vertices g0 \<and> rows_apart h \<and> mirrored h"])
    show "vertices g0 = vertices g0 \<and> rows_apart g0 \<and> mirrored g0" using ra m by simp
  next
    fix h w h'
    assume h: "vertices h = vertices g0 \<and> rows_apart h \<and> mirrored h"
      and w: "w \<in> set (map snd (vertices g0))"
      and step: "scan_adj h w (adj_vertices w) = Inr h'"
    from h have hv: "vertices h = vertices g0" and hr: "rows_apart h" and hm: "mirrored h"
      by blast+
    from fresh_list(1)[OF so] w have "stored g0 w" by blast
    then have sw: "stored h w" unfolding stored_def hv .
    have vs': "vertices h' = vertices h" by (rule scan_adj_vertices[OF step])
    have r': "rows_apart h'"
    proof (rule rows_apart_transfer[OF hr])
      fix j show "row_of (state h') j = row_of (state h) j" by (rule scan_adj_row_of[OF step])
    next
      fix k show "(map_of (vertices h') k \<noteq> None) = (map_of (vertices h) k \<noteq> None)"
        unfolding vs' ..
    qed
    have m': "mirrored h'"
      unfolding mirrored_def vs'
    proof (intro allI impI)
      fix k u assume ku: "map_of (vertices h) k = Some u"
      with hm have "mirrored_at h k u" unfolding mirrored_def by blast
      from scan_adj_mirrored_at[OF step hr sw ku this] show "mirrored_at h' k u" .
    qed
    from vs' hv r' m' show "vertices h' = vertices g0 \<and> rows_apart h' \<and> mirrored h'"
      by simp
  qed
  then show "mirrored g" by simp
qed

lemma rebuild_vertex_mirror_self:
  assumes step: "rebuild_vertex h w = Inr h'" and ls: "lock_step h"
    and half: "half_mirrored_at h (prescinct_id w) w"
  shows "mirrored_at h' (prescinct_id w) w"
proof -
  note st = rebuild_vertex_state[OF step, of "prescinct_id w"]
  note bs = rebuild_vertex_border_set(1)[OF step ls, of "prescinct_id w"]
  show ?thesis
  proof (cases "differing (vertices h) w (adj_vertices w) = {}")
    case True
    with bs have e: "border_set h' (prescinct_id w) = []" by simp
    show ?thesis
    proof (cases "border_set h (prescinct_id w) = []")
      case True
      with half have "state_get0 (state h) (prescinct_id w) = Some (f32 (district_id w))"
        by (simp add: half_mirrored_at_def)
      with st \<open>differing (vertices h) w (adj_vertices w) = {}\<close> True e show ?thesis
        by (simp add: mirrored_at_def)
    next
      case False
      with st \<open>differing (vertices h) w (adj_vertices w) = {}\<close> e show ?thesis
        by (simp add: mirrored_at_def)
    qed
  next
    case False
    with bs have "border_set h' (prescinct_id w) \<noteq> []" by auto
    with st False show ?thesis by (simp add: mirrored_at_def)
  qed
qed

lemma rebuild_vertex_mirror_other:
  assumes step: "rebuild_vertex h w = Inr h'" and ra: "rows_apart h" and sw: "stored h w"
    and ku: "map_of (vertices h) k = Some u" and k: "k \<noteq> prescinct_id w"
  shows "mirrored_at h' k u = mirrored_at h k u"
    and "half_mirrored_at h' k u = half_mirrored_at h k u"
proof -
  from sw have "map_of (vertices h) (prescinct_id w) \<noteq> None" by (simp add: stored_def)
  with ra ku k have "row_of (state h) k \<noteq> row_of (state h) (prescinct_id w)"
    unfolding rows_apart_def by (metis option.distinct(1))
  with rebuild_vertex_state[OF step, of k]
  have s: "state_get0 (state h') k = state_get0 (state h) k" by simp
  have b: "border_set h' k = border_set h k"
    using rebuild_vertex_frame(2)[OF step k] by (simp add: border_set_def)
  from s b show "mirrored_at h' k u = mirrored_at h k u"
    and "half_mirrored_at h' k u = half_mirrored_at h k u"
    by (simp_all add: mirrored_at_def half_mirrored_at_def)
qed

text \<open>
  The loop of a move mirrors every vertex it runs on, provided the tensor was right
  for the vertices with no recorded district; it keeps the others as they were.
\<close>

lemma rebuild_loop_mirror:
  "rebuild_loop g ws = Inr g' \<Longrightarrow> lock_step g \<Longrightarrow> rows_apart g \<Longrightarrow>
   \<forall>w \<in> set ws. stored g w \<Longrightarrow>
   \<forall>k u. map_of (vertices g) k = Some u \<longrightarrow>
      half_mirrored_at g k u \<and> (k \<noteq> p \<longrightarrow> mirrored_at g k u) \<Longrightarrow>
   map_of (vertices g) k = Some u \<Longrightarrow>
   half_mirrored_at g' k u \<and> (k \<noteq> p \<or> k \<in> prescinct_id ` set ws \<longrightarrow> mirrored_at g' k u)"
proof (induction ws arbitrary: g' k u rule: rev_induct)
  case Nil
  then show ?case by simp
next
  case (snoc w1 ws)
  from snoc.prems(1) obtain g1 where g1: "rebuild_loop g ws = Inr g1"
    and last: "rebuild_vertex g1 w1 = Inr g'"
    by (rule rebuild_loop_snocE)
  have vs: "vertices g1 = vertices g" by (rule rebuild_loop_vertices[OF g1])
  have ls: "lock_step g1" by (rule rebuild_loop_lock_step[OF g1 snoc.prems(2)])
  have ra: "rows_apart g1"
  proof (rule rows_apart_transfer[OF snoc.prems(3)])
    fix j show "row_of (state g1) j = row_of (state g) j" by (rule rebuild_loop_row_of[OF g1])
  next
    fix k show "(map_of (vertices g1) k \<noteq> None) = (map_of (vertices g) k \<noteq> None)"
      unfolding vs ..
  qed
  from snoc.prems(4) have st: "\<forall>w \<in> set ws. stored g w" and "stored g w1" by simp_all
  then have sw1: "stored g1 w1" by (simp add: stored_def vs)
  note IH = snoc.IH[OF g1 snoc.prems(2,3) st snoc.prems(5)]
  show ?case
  proof (cases "k = prescinct_id w1")
    case True
    with sw1 snoc.prems(6) have u: "u = w1" by (simp add: stored_def vs)
    from IH[OF snoc.prems(6)] have "half_mirrored_at g1 (prescinct_id w1) w1"
      unfolding True u by simp
    from rebuild_vertex_mirror_self[OF last ls this]
    have "mirrored_at g' k u" unfolding True u .
    then show ?thesis by (simp add: mirrored_at_half)
  next
    case False
    from snoc.prems(6) have ku: "map_of (vertices g1) k = Some u" by (simp add: vs)
    from rebuild_vertex_mirror_other[OF last ra sw1 ku False] IH[OF snoc.prems(6)] False
    show ?thesis by auto
  qed
qed

lemma move_mirrored:
  assumes c: "consistent g" and ra: "rows_apart g" and m: "mirrored g"
    and mv: "change_vertex_district g p d = Inr g'"
  shows "mirrored g'" and "rows_apart g'"
proof -
  from mv obtain v where pv: "map_of (vertices g) p = Some v"
    by (rule change_vertex_district_InrE)
  from mv pv obtain t ws where ok: "vertex_on_border g (p, d) \<noteq> None"
    and t: "state_set0 (state g) p d = Inr t"
    and lk: "lookup_vertices (AList.update p (v\<lparr>district_id := d\<rparr>) (vertices g))
        (adj_vertices v) = Some ws"
    and loop: "rebuild_loop
       (g\<lparr>vertices := AList.update p (v\<lparr>district_id := d\<rparr>) (vertices g), state := Some t\<rparr>)
       (ws @ [v\<lparr>district_id := d\<rparr>]) = Inr g'"
    by (rule change_vertex_district_Inr_at)
  let ?v' = "v\<lparr>district_id := d\<rparr>"
  let ?g2 = "g\<lparr>vertices := AList.update p ?v' (vertices g), state := Some t\<rparr>"
  from c have so: "structure_ok g" and ls: "lock_step g" by (simp_all add: consistent_def)
  have ls2: "lock_step ?g2" by (rule move_mid(1)[OF c pv _ _ _ t]) simp_all
  have st: "\<forall>w \<in> set (ws @ [?v']). stored ?g2 w"
    by (rule move_list(1)[OF so pv]) (use lk in simp_all)
  have ids: "prescinct_id ` set (ws @ [?v']) = insert p (set (adj_vertices v))"
    by (rule move_list(2)[OF so pv, of ?g2]) (use lk in simp_all)
  have keys: "\<And>k. (map_of (vertices ?g2) k \<noteq> None) = (map_of (vertices g) k \<noteq> None)"
    using pv by (simp add: map_of_moved)
  have rows: "\<And>j. row_of (state ?g2) j = row_of (state g) j"
    using state_set0_row_of[OF t] by simp
  have ra2: "rows_apart ?g2" by (rule rows_apart_transfer[OF ra rows keys])
  have vs: "vertices g' = vertices ?g2" by (rule rebuild_loop_vertices[OF loop])
  show "rows_apart g'"
  proof (rule rows_apart_transfer[OF ra2])
    fix j show "row_of (state g') j = row_of (state ?g2) j" by (rule rebuild_loop_row_of[OF loop])
  next
    fix k show "(map_of (vertices g') k \<noteq> None) = (map_of (vertices ?g2) k \<noteq> None)"
      unfolding vs ..
  qed
  have bs2: "\<And>k. border_set ?g2 k = border_set g k" by (simp add: border_set_def)
  from ok lock_step_vob[OF ls, of p d] have pb: "border_set g p \<noteq> []" by auto
  have pre: "\<forall>k u. map_of (vertices ?g2) k = Some u \<longrightarrow>
      half_mirrored_at ?g2 k u \<and> (k \<noteq> p \<longrightarrow> mirrored_at ?g2 k u)"
  proof (intro allI impI)
    fix k u assume ku: "map_of (vertices ?g2) k = Some u"
    show "half_mirrored_at ?g2 k u \<and> (k \<noteq> p \<longrightarrow> mirrored_at ?g2 k u)"
    proof (cases "k = p")
      case True
      with pb bs2[of p] show ?thesis by (simp add: half_mirrored_at_def)
    next
      case False
      with ku have ku0: "map_of (vertices g) k = Some u" by (simp add: map_of_moved)
      with m have m0: "mirrored_at g k u" unfolding mirrored_def by blast
      from ra ku0 pv False have "row_of (state g) k \<noteq> row_of (state g) p"
        unfolding rows_apart_def by (metis option.distinct(1))
      with state_set0_get[OF t, of k]
      have "state_get0 (state ?g2) k = state_get0 (state g) k" by simp
      with m0 bs2[of k] have "mirrored_at ?g2 k u" by (simp add: mirrored_at_def)
      then show ?thesis by (simp add: mirrored_at_half)
    qed
  qed
  show "mirrored g'"
    unfolding mirrored_def vs
  proof (intro allI impI)
    fix k u assume ku: "map_of (vertices ?g2) k = Some u"
    from rebuild_loop_mirror[OF loop ls2 ra2 st pre ku]
    have "k \<noteq> p \<or> k \<in> prescinct_id ` set (ws @ [?v']) \<longrightarrow> mirrored_at g' k u" by simp
    moreover have "p \<in> prescinct_id ` set (ws @ [?v'])" unfolding ids by simp
    ultimately show "mirrored_at g' k u" by blast
  qed
qed

lemma reachable_mirrored:
  "reachable g0 g \<Longrightarrow> rows_apart g0 \<Longrightarrow> mirrored g0 \<Longrightarrow> mirrored g \<and> rows_apart g"
proof (induction rule: reachable.induct)
  case (discovered g)
  from discovery_mirrored[OF discovered.hyps(1) discovered.prems discovered.hyps(2)]
  show ?case by simp
next
  case (moved g p d g')
  from moved.IH[OF moved.prems] have "mirrored g" "rows_apart g" by simp_all
  from move_mirrored[OF reachable_consistent[OF moved.hyps(1)] this(2,1) moved.hyps(2)]
  show ?case by simp
qed

text \<open>Vertex ids that are not negative address rows of their own.\<close>

lemma nonneg_rows_apart:
  assumes "structure_ok g" and "\<forall>k. map_of (vertices g) k \<noteq> None \<longrightarrow> 0 \<le> k"
  shows "rows_apart g"
  unfolding rows_apart_def
proof (intro allI impI)
  fix k k'
  assume k: "map_of (vertices g) k \<noteq> None" and k': "map_of (vertices g) k' \<noteq> None"
    and r: "row_of (state g) k = row_of (state g) k'"
  from assms(2) k k' have nn: "0 \<le> k" "0 \<le> k'" by simp_all
  from assms(1) k k' have a: "state_get0 (state g) k \<noteq> None" "state_get0 (state g) k' \<noteq> None"
    unfolding structure_ok_def by auto
  then obtain t where t: "state g = Some t" by (cases "state g") (simp_all add: state_get0_def)
  from a t nn have "norm_index (length t) k = Some (nat k)" "norm_index (length t) k' = Some (nat k')"
    by (auto simp: state_get0_def norm_index_def split: if_splits)
  with r t nn show "k = k'" by (simp add: row_of_def)
qed

subsection \<open>graph_from_json\<close>

lemma set_adj_fields:
  "prescinct_id (set_adj v as) = prescinct_id v \<and> district_id (set_adj v as) = district_id v"
  by (induction as arbitrary: v) simp_all

lemma set_adj_length:
  "length (adj_vertices (set_adj v as)) \<le> length (adj_vertices v) + length as"
proof (induction as arbitrary: v)
  case Nil
  then show ?case by simp
next
  case (Cons a as)
  have "length (set_add (adj_vertices v) a) \<le> Suc (length (adj_vertices v))"
    by (simp add: set_add_def)
  with Cons[of "v\<lparr>adj_vertices := set_add (adj_vertices v) a\<rparr>"] show ?case by simp
qed

lemma load_rows_Cons:
  "load_rows vs m (row # rows) =
     load_rows (AList.update (fst (row_vertex row)) (snd (row_vertex row)) vs)
       (max m (length (snd (snd row)))) rows"
  by (cases row) (auto simp: row_vertex_def Let_def max_def)

lemma load_rows_distinct:
  "distinct (map fst vs) \<Longrightarrow> distinct (map fst (fst (load_rows vs m df)))"
  by (induction df arbitrary: vs m) (simp_all add: load_rows_Cons distinct_update del: load_rows.simps(2))

lemma load_rows_map:
  "map_of (fst (load_rows vs m df)) = map_of vs ++ map_of (rev (map row_vertex df))"
proof (induction df arbitrary: vs m)
  case Nil
  then show ?case by simp
next
  case (Cons row df)
  obtain i w where rv: "row_vertex row = (i, w)" by (cases "row_vertex row")
  have "map_of (fst (load_rows vs m (row # df))) =
      map_of (fst (load_rows (AList.update i w vs) (max m (length (snd (snd row)))) df))"
    by (simp only: load_rows_Cons rv fst_conv snd_conv)
  also have "\<dots> = map_of (AList.update i w vs) ++ map_of (rev (map row_vertex df))"
    by (rule Cons)
  also have "\<dots> = map_of vs ++ map_of (rev (map row_vertex (row # df)))"
    by (rule ext) (simp add: rv update_conv' map_add_def split: option.splits)
  finally show ?case .
qed

lemma row_vertex_id: "row_vertex row = (i, w) \<Longrightarrow> prescinct_id w = i"
  by (cases row) (auto simp: row_vertex_def set_adj_fields Vertex_init_def)

lemma row_vertex_length:
  "row_vertex row = (i, w) \<Longrightarrow> length (adj_vertices w) \<le> length (snd (snd row))"
  using set_adj_length[of "Vertex_init (fst row) (fst (snd row))" "snd (snd row)"]
  by (cases row) (auto simp: row_vertex_def Vertex_init_def)

lemma load_rows_ids:
  "\<forall>k w. map_of vs k = Some w \<longrightarrow> prescinct_id w = k \<Longrightarrow>
   map_of (fst (load_rows vs m df)) k = Some w \<Longrightarrow> prescinct_id w = k"
proof (induction df arbitrary: vs m)
  case Nil
  then show ?case by simp
next
  case (Cons row df)
  obtain i u where rv: "row_vertex row = (i, u)" by (cases "row_vertex row")
  have "\<forall>k w. map_of (AList.update i u vs) k = Some w \<longrightarrow> prescinct_id w = k"
    using Cons.prems(1) row_vertex_id[OF rv] by (simp add: update_conv')
  from Cons.IH[OF this] Cons.prems(2) rv show ?case
    by (simp add: load_rows_Cons del: load_rows.simps(2))
qed

lemma load_rows_max:
  "\<forall>k w. map_of vs k = Some w \<longrightarrow> length (adj_vertices w) \<le> m \<Longrightarrow>
   map_of (fst (load_rows vs m df)) k = Some w \<Longrightarrow>
   length (adj_vertices w) \<le> snd (load_rows vs m df)"
proof (induction df arbitrary: vs m)
  case Nil
  then show ?case by simp
next
  case (Cons row df)
  obtain i u where rv: "row_vertex row = (i, u)" by (cases "row_vertex row")
  have "\<forall>k w. map_of (AList.update i u vs) k = Some w \<longrightarrow>
      length (adj_vertices w) \<le> max m (length (snd (snd row)))"
  proof (intro allI impI)
    fix k w assume kw: "map_of (AList.update i u vs) k = Some w"
    show "length (adj_vertices w) \<le> max m (length (snd (snd row)))"
    proof (cases "k = i")
      case True
      with kw have "w = u" by (simp add: update_conv')
      with row_vertex_length[OF rv] show ?thesis by simp
    next
      case False
      with kw have "map_of vs k = Some w" by (simp add: update_conv')
      with Cons.prems(1) have "length (adj_vertices w) \<le> m" by blast
      then show ?thesis by simp
    qed
  qed
  from Cons.IH[OF this] Cons.prems(2) rv show ?case
    by (simp add: load_rows_Cons del: load_rows.simps(2))
qed

lemma state_set_rest_Inr:
  "state_set_rest t i xs = Inr t' \<Longrightarrow>
   \<exists>r c cs ys. norm_index (length t) i = Some r \<and> r < length t \<and> t ! r = c # cs \<and>
      t' = t[r := c # ys]"
  by (auto simp: state_set_rest_def dest: norm_index_less split: option.splits list.splits if_splits)

lemma state_set_rest_get:
  assumes "state_set_rest t i xs = Inr t'"
  shows "state_get0 (Some t') j = state_get0 (Some t) j"
    and "row_of (Some t') j = row_of (Some t) j"
proof -
  from state_set_rest_Inr[OF assms] obtain r c cs ys where
    r: "norm_index (length t) i = Some r" "r < length t" and row: "t ! r = c # cs"
    and t': "t' = t[r := c # ys]"
    by blast
  show "row_of (Some t') j = row_of (Some t) j" by (simp add: row_of_def t')
  show "state_get0 (Some t') j = state_get0 (Some t) j"
  proof (cases "norm_index (length t) j")
    case None
    then show ?thesis by (simp add: state_get0_def t')
  next
    case (Some r')
    then show ?thesis using r row
      by (cases "r' = r") (simp_all add: state_get0_def t')
  qed
qed

text \<open>One round of the second loop of \<^verbatim>\<open>graph_from_json\<close>.\<close>

lemma fill_state_ConsE:
  assumes "fill_state m t ((k, w) # rest) = Inr t'"
  obtains t1 xs t2 where "state_set0 (Some t) k (district_id w) = Inr t1"
    "state_set_rest t1 k xs = Inr t2" "fill_state m t2 rest = Inr t'"
  using assms by (auto split: sum.splits)

lemma fill_state_round:
  assumes "state_set0 (Some t) k x = Inr t1" "state_set_rest t1 k xs = Inr t2"
  shows "state_get0 (Some t2) j =
      (if row_of (Some t) j = row_of (Some t) k then Some (f32 x) else state_get0 (Some t) j)"
    and "row_of (Some t2) j = row_of (Some t) j"
  using state_set0_get[OF assms(1), of j] state_set0_row_of[OF assms(1), of j]
    state_set_rest_get[OF assms(2), of j]
  by simp_all

lemma fill_state_row_of:
  "fill_state m t vs = Inr t' \<Longrightarrow> row_of (Some t') j = row_of (Some t) j"
proof (induction vs arbitrary: t)
  case Nil
  then show ?case by simp
next
  case (Cons kw vs)
  obtain k w where kw: "kw = (k, w)" by (cases kw)
  from Cons.prems obtain t1 xs t2 where s: "state_set0 (Some t) k (district_id w) = Inr t1"
    "state_set_rest t1 k xs = Inr t2"
    and rest: "fill_state m t2 vs = Inr t'"
    unfolding kw by (rule fill_state_ConsE)
  from Cons.IH[OF rest] fill_state_round(2)[OF s, of j] show ?case by simp
qed

lemma fill_state_addressable:
  "fill_state m t vs = Inr t' \<Longrightarrow>
   (state_get0 (Some t) j \<noteq> None \<or> j \<in> fst ` set vs) \<Longrightarrow> state_get0 (Some t') j \<noteq> None"
proof (induction vs arbitrary: t)
  case Nil
  then show ?case by simp
next
  case (Cons kw vs)
  obtain k w where kw: "kw = (k, w)" by (cases kw)
  from Cons.prems(1) obtain t1 xs t2 where s: "state_set0 (Some t) k (district_id w) = Inr t1"
    "state_set_rest t1 k xs = Inr t2"
    and rest: "fill_state m t2 vs = Inr t'"
    unfolding kw by (rule fill_state_ConsE)
  have "state_get0 (Some t2) j \<noteq> None \<or> j \<in> fst ` set vs"
  proof (cases "j \<in> fst ` set vs")
    case True
    then show ?thesis by simp
  next
    case False
    with Cons.prems(2) kw have "state_get0 (Some t) j \<noteq> None \<or> j = k" by auto
    with fill_state_round(1)[OF s, of j] show ?thesis by auto
  qed
  from Cons.IH[OF rest this] show ?case .
qed

text \<open>
  When the ids address rows of their own, the loop leaves in column 0 of the row of
  every vertex the district of the vertex.
\<close>

lemma fill_state_value:
  "fill_state m t vs = Inr t' \<Longrightarrow> distinct (map fst vs) \<Longrightarrow>
   \<forall>k k'. k \<in> fst ` set vs \<longrightarrow> k' \<in> fst ` set vs \<longrightarrow>
      row_of (Some t) k = row_of (Some t) k' \<longrightarrow> k = k' \<Longrightarrow>
   (k, w) \<in> set vs \<Longrightarrow> state_get0 (Some t') k = Some (f32 (district_id w))"
proof (induction vs arbitrary: t)
  case Nil
  then show ?case by simp
next
  case (Cons kw vs)
  obtain k1 w1 where kw: "kw = (k1, w1)" by (cases kw)
  from Cons.prems(1) obtain t1 xs t2 where s: "state_set0 (Some t) k1 (district_id w1) = Inr t1"
    "state_set_rest t1 k1 xs = Inr t2"
    and rest: "fill_state m t2 vs = Inr t'"
    unfolding kw by (rule fill_state_ConsE)
  have rows: "\<And>j. row_of (Some t2) j = row_of (Some t) j"
    by (rule fill_state_round(2)[OF s])
  from Cons.prems(2) kw have d: "distinct (map fst vs)" and k1: "k1 \<notin> fst ` set vs" by simp_all
  have apart: "\<forall>k k'. k \<in> fst ` set vs \<longrightarrow> k' \<in> fst ` set vs \<longrightarrow>
      row_of (Some t2) k = row_of (Some t2) k' \<longrightarrow> k = k'"
    using Cons.prems(3) unfolding rows by simp
  show ?case
  proof (cases "(k, w) \<in> set vs")
    case True
    from Cons.IH[OF rest d apart True] show ?thesis .
  next
    case False
    with Cons.prems(4) kw have e: "k = k1" "w = w1" by simp_all
    have "\<forall>kv \<in> set vs. row_of (Some t2) (fst kv) \<noteq> row_of (Some t2) k1"
    proof
      fix kv assume kv: "kv \<in> set vs"
      then have "fst kv \<in> fst ` set (kw # vs)" "k1 \<in> fst ` set (kw # vs)" "fst kv \<noteq> k1"
        using k1 kw by auto
      with Cons.prems(3) show "row_of (Some t2) (fst kv) \<noteq> row_of (Some t2) k1"
        unfolding rows by blast
    qed
    with rest have "state_get0 (Some t') k1 = state_get0 (Some t2) k1"
    proof (induction vs arbitrary: t2)
      case Nil
      then show ?case by simp
    next
      case (Cons kv vs)
      obtain k2 w2 where kv: "kv = (k2, w2)" by (cases kv)
      from Cons.prems(1) obtain u1 ys u2 where
        s2: "state_set0 (Some t2) k2 (district_id w2) = Inr u1"
        "state_set_rest u1 k2 ys = Inr u2"
        and rest2: "fill_state m u2 vs = Inr t'"
        unfolding kv by (rule fill_state_ConsE)
      from Cons.prems(2) kv have ne: "row_of (Some t2) k1 \<noteq> row_of (Some t2) k2" by auto
      have "\<forall>kv \<in> set vs. row_of (Some u2) (fst kv) \<noteq> row_of (Some u2) k1"
        using Cons.prems(2) fill_state_round(2)[OF s2] by simp
      from Cons.IH[OF rest2 this] fill_state_round(1)[OF s2, of k1] ne show ?case by simp
    qed
    with fill_state_round(1)[OF s, of k1] show ?thesis unfolding e by simp
  qed
qed

text \<open>What \<^verbatim>\<open>graph_from_json\<close> leaves on a graph just initialised.\<close>

lemma graph_from_json_InrE:
  assumes "graph_from_json Graph_init df = Inr g"
  obtains vs m t where "load_rows [] 0 df = (vs, m)"
    "fill_state m (replicate (length vs) (replicate (m + 1) 0)) vs = Inr t"
    "g = Graph_init\<lparr>vertices := vs, state := Some t\<rparr>"
  using assms
  by (auto simp: graph_from_json_def Graph_init_def Let_def split: prod.splits sum.splits)

lemma graph_from_json_vertices:
  assumes "graph_from_json Graph_init df = Inr g"
  shows "map_of (vertices g) = map_of (rev (map row_vertex df))"
proof -
  from assms obtain vs m t where l: "load_rows [] 0 df = (vs, m)"
    and g: "g = Graph_init\<lparr>vertices := vs, state := Some t\<rparr>"
    by (rule graph_from_json_InrE)
  from load_rows_map[of "[]" 0 df] l g show ?thesis by simp
qed

text \<open>
  The first loop has run to its end when the second one raises: the vertices are
  there all the same.
\<close>

lemma graph_from_json_raised:
  assumes "graph_from_json Graph_init df = Inl (e, g)"
  shows "vertices g = fst (load_rows [] 0 df)"
  using assms
  by (auto simp: graph_from_json_def Graph_init_def Let_def split: prod.splits sum.splits)

lemma graph_from_json_fresh:
  assumes "graph_from_json Graph_init df = Inr g"
  shows "freshly_constructed g"
proof -
  from assms obtain vs m t where l: "load_rows [] 0 df = (vs, m)"
    and f: "fill_state m (replicate (length vs) (replicate (m + 1) 0)) vs = Inr t"
    and g: "g = Graph_init\<lparr>vertices := vs, state := Some t\<rparr>"
    by (rule graph_from_json_InrE)
  have d: "distinct (map fst vs)" using load_rows_distinct[of "[]" 0 df] l by simp
  have "structure_ok g"
    unfolding structure_ok_def
  proof (intro conjI allI impI)
    show "distinct (map fst (vertices g))" using d g by simp
  next
    fix k w assume "map_of (vertices g) k = Some w"
    with g have kw: "map_of vs k = Some w" by simp
    from load_rows_ids[of "[]" 0 df k w] l kw show "prescinct_id w = k" by simp
    from kw have "k \<in> fst ` set vs" by (metis map_of_SomeD fst_conv image_eqI)
    with fill_state_addressable[OF f, of k] g show "state_get0 (state g) k \<noteq> None" by simp
  qed
  with g show ?thesis by (simp add: freshly_constructed_def Graph_init_def)
qed

lemma graph_from_json_nonneg:
  assumes "graph_from_json Graph_init df = Inr g" and nn: "\<forall>row \<in> set df. 0 \<le> fst row"
  shows "rows_apart g"
proof -
  from graph_from_json_fresh[OF assms(1)] have so: "structure_ok g"
    by (simp add: freshly_constructed_def)
  have keys: "\<forall>k. map_of (vertices g) k \<noteq> None \<longrightarrow> 0 \<le> k"
  proof (intro allI impI)
    fix k assume "map_of (vertices g) k \<noteq> None"
    then obtain w where "map_of (rev (map row_vertex df)) k = Some w"
      unfolding graph_from_json_vertices[OF assms(1)] by blast
    then have "(k, w) \<in> set (map row_vertex df)" using map_of_SomeD by fastforce
    then obtain row where "row \<in> set df" "row_vertex row = (k, w)" by auto
    with nn show "0 \<le> k" by (cases row) (auto simp: row_vertex_def)
  qed
  show ?thesis by (rule nonneg_rows_apart[OF so keys])
qed

lemma graph_from_json_mirrored:
  assumes "graph_from_json Graph_init df = Inr g" and ra: "rows_apart g"
  shows "mirrored g"
proof -
  from assms(1) obtain vs m t where l: "load_rows [] 0 df = (vs, m)"
    and f: "fill_state m (replicate (length vs) (replicate (m + 1) 0)) vs = Inr t"
    and g: "g = Graph_init\<lparr>vertices := vs, state := Some t\<rparr>"
    by (rule graph_from_json_InrE)
  have fr: "freshly_constructed g" by (rule graph_from_json_fresh[OF assms(1)])
  then have so: "structure_ok g" by (simp add: freshly_constructed_def)
  show "mirrored g"
    unfolding mirrored_def
  proof (intro allI impI)
    fix k u assume ku: "map_of (vertices g) k = Some u"
    with g have mem: "(k, u) \<in> set vs" by (auto dest: map_of_SomeD)
    have d: "distinct (map fst vs)" using so g by (simp add: structure_ok_def)
    have rows: "\<And>j. row_of (Some t) j =
        row_of (Some (replicate (length vs) (replicate (m + 1) 0))) j"
      by (rule fill_state_row_of[OF f])
    have apart: "\<forall>k k'. k \<in> fst ` set vs \<longrightarrow> k' \<in> fst ` set vs \<longrightarrow>
        row_of (Some (replicate (length vs) (replicate (m + 1) 0))) k =
        row_of (Some (replicate (length vs) (replicate (m + 1) 0))) k' \<longrightarrow> k = k'"
    proof (intro allI impI)
      fix a b assume "a \<in> fst ` set vs" "b \<in> fst ` set vs"
        and r: "row_of (Some (replicate (length vs) (replicate (m + 1) 0))) a =
          row_of (Some (replicate (length vs) (replicate (m + 1) 0))) b"
      with d g have "map_of (vertices g) a \<noteq> None" "map_of (vertices g) b \<noteq> None"
        by (simp_all add: map_of_eq_None_iff)
      moreover from r have "row_of (state g) a = row_of (state g) b"
        using rows g by simp
      ultimately show "a = b" using ra unfolding rows_apart_def by blast
    qed
    from fill_state_value[OF f d apart mem]
    have "state_get0 (state g) k = Some (f32 (district_id u))" using g by simp
    moreover from fr have "border_set g k = []"
      by (simp add: freshly_constructed_def border_set_def)
    ultimately show "mirrored_at g k u" by (simp add: mirrored_at_def)
  qed
qed

section \<open>The concrete graph, run\<close>

text \<open>The definitions a run of the model on concrete data unfolds.\<close>

lemmas run_defs =
  graph_from_json_def Graph_init_def Vertex_init_def set_add_def state_set0_def
  state_set_rest_def adj_tensor_def norm_index_def get_border_vertices_def update_border_def
  change_vertex_district_def rebuild_vertex_def clear_vertex_def Let_def f32_exact

lemma path_built: "graph_from_json Graph_init path_frame = Inr path_g0"
  by (simp add: run_defs path_frame_def path_g0_def)

lemma path_discovered: "get_border_vertices path_g0 = Inr path_g1"
  by (simp add: run_defs path_g0_def path_g1_def fun_eq_iff)

lemma path_moved: "change_vertex_district path_g1 1 2 = Inr path_g2"
  by (simp add: run_defs path_g1_def path_g2_def fun_eq_iff)

lemma path_fresh: "freshly_constructed path_g0"
  by (auto simp: freshly_constructed_def structure_ok_def path_g0_def state_get0_def
      norm_index_def split: if_splits)

lemma path_reach1: "reachable path_g0 path_g1"
  by (rule reachable.discovered[OF path_fresh path_discovered])

lemma path_reach2: "reachable path_g0 path_g2"
  by (rule reachable.moved[OF path_reach1 path_moved])

lemma path_symmetric: "adj_symmetric path_g1" "adj_symmetric path_g2"
  by (auto simp: adj_symmetric_def path_g1_def path_g2_def split: if_splits)

text \<open>The longer row of precincts.\<close>

lemma long_built: "graph_from_json Graph_init long_frame = Inr long_g0"
  by (simp add: run_defs long_frame_def long_g0_def)

lemma long_discovered: "get_border_vertices long_g0 = Inr long_g1"
  by (simp add: run_defs long_g0_def long_g1_def fun_eq_iff)

lemma long_moved: "change_vertex_district long_g1 1 2 = Inr long_g2"
  by (simp add: run_defs long_g1_def long_g2_def fun_eq_iff)

lemma long_reach1: "reachable long_g0 long_g1"
  by (rule reachable.discovered[OF graph_from_json_fresh[OF long_built] long_discovered])

text \<open>The graphs on which the tensor goes wrong.\<close>

lemma neg_built: "graph_from_json Graph_init neg_frame = Inr neg_g0"
  by (simp add: run_defs neg_frame_def neg_g0_def)

lemma neg_discovered: "get_border_vertices neg_g0 = Inr neg_g1"
  by (simp add: run_defs neg_g0_def neg_g1_def fun_eq_iff)

lemma big_built: "graph_from_json Graph_init big_frame = Inr big_g0"
  by (simp add: run_defs f32_run big_frame_def big_g0_def)

lemma big_discovered: "get_border_vertices big_g0 = Inr big_g1"
  by (simp add: run_defs f32_run big_g0_def big_g1_def fun_eq_iff)

section \<open>The scenario of the specification\<close>









section \<open>The claims\<close>

text \<open>
  C1. After border discovery on a freshly constructed graph and any number of moves
  that return, for every vertex \<open>v\<close> and every adjacent vertex \<open>n\<close> of \<open>v\<close>, the
  pair of the id of \<open>v\<close> and the district of \<open>n\<close> is a key of
  \<^verbatim>\<open>vertex_on_border\<close> exactly when the two districts differ. The adjacency is
  taken symmetric, as the code assumes it.
\<close>

theorem border_index_exact:
  assumes "reachable g0 g" and "adj_symmetric g"
    and "map_of (vertices g) k = Some v" and "a \<in> set (adj_vertices v)"
    and "map_of (vertices g) a = Some n"
  shows "((prescinct_id v, district_id n) \<in> dom (vertex_on_border g)) =
     (district_id n \<noteq> district_id v)"
proof -
  from reachable_consistent[OF assms(1)] have so: "structure_ok g" and ls: "lock_step g"
    by (simp_all add: consistent_def)
  from so assms(3) have id: "prescinct_id v = k" by (simp add: structure_ok_def)
  from reachable_exact[OF assms(1,2)] assms(3)
  have ex: "set (border_set g k) = differing (vertices g) v (adj_vertices v)"
    by (simp add: exact_def)
  have "((k, district_id n) \<in> dom (vertex_on_border g)) =
      (district_id n \<in> set (border_set g k))"
    using lock_step_vob[OF ls, of k "district_id n"] by (simp add: domIff)
  also have "\<dots> = (district_id n \<in> differing (vertices g) v (adj_vertices v))"
    by (simp only: ex)
  also have "\<dots> = (district_id n \<noteq> district_id v)"
    unfolding differing_def mem_Collect_eq using assms(4,5) by blast
  finally show ?thesis unfolding id .
qed

theorem border_index_exact_witness:
  "reachable path_g0 path_g2 \<and> adj_symmetric path_g2 \<and>
   map_of (vertices path_g2) 0 = Some \<lparr>prescinct_id = 0, district_id = 1, adj_vertices = [1]\<rparr> \<and>
   map_of (vertices path_g2) 1 = Some \<lparr>prescinct_id = 1, district_id = 2, adj_vertices = [0, 2]\<rparr> \<and>
   map_of (vertices path_g2) 2 = Some \<lparr>prescinct_id = 2, district_id = 2, adj_vertices = [1, 3]\<rparr> \<and>
   map_of (vertices path_g2) 3 = Some \<lparr>prescinct_id = 3, district_id = 2, adj_vertices = [2]\<rparr> \<and>
   (0, 2) \<in> dom (vertex_on_border path_g2) \<and>
   (2, 2) \<notin> dom (vertex_on_border path_g2)"
proof -
  have v: "map_of (vertices path_g2) 0 = Some \<lparr>prescinct_id = 0, district_id = 1, adj_vertices = [1]\<rparr>"
    "map_of (vertices path_g2) 1 = Some \<lparr>prescinct_id = 1, district_id = 2, adj_vertices = [0, 2]\<rparr>"
    "map_of (vertices path_g2) 2 = Some \<lparr>prescinct_id = 2, district_id = 2, adj_vertices = [1, 3]\<rparr>"
    "map_of (vertices path_g2) 3 = Some \<lparr>prescinct_id = 3, district_id = 2, adj_vertices = [2]\<rparr>"
    by (simp_all add: path_g2_def)
  from border_index_exact [OF path_reach2 path_symmetric(2) v(1) _ v(2)]
  have "(0, 2) \<in> dom (vertex_on_border path_g2)" by simp
  moreover from border_index_exact [OF path_reach2 path_symmetric(2) v(3) _ v(4)]
  have "(2, 2) \<notin> dom (vertex_on_border path_g2)" by simp
  ultimately show ?thesis using path_reach2 path_symmetric(2) v by blast
qed

text \<open>
  C2, as the code has it. After border discovery and after every move that returns,
  a vertex is a key of \<^verbatim>\<open>district_id_on_border_of_vertex\<close> with a non-empty set
  exactly when one of its adjacent vertices is in another district (the adjacency
  taken symmetric). A move never removes a key: a vertex whose set has become empty
  stays a key, with the empty set.
\<close>

theorem border_set_nonempty_iff:
  assumes "reachable g0 g" and "adj_symmetric g" and "map_of (vertices g) k = Some v"
  shows "((\<exists>s. district_id_on_border_of_vertex g k = Some s \<and> s \<noteq> []) =
      (\<exists>a \<in> set (adj_vertices v). \<exists>n. map_of (vertices g) a = Some n \<and>
          district_id n \<noteq> district_id v)) \<and>
     (\<forall>p d g'. change_vertex_district g p d = Inr g' \<longrightarrow>
        dom (district_id_on_border_of_vertex g) \<subseteq> dom (district_id_on_border_of_vertex g'))"
proof
  from reachable_exact[OF assms(1,2)] assms(3)
  have ex: "set (border_set g k) = differing (vertices g) v (adj_vertices v)"
    by (simp add: exact_def)
  have "(\<exists>s. district_id_on_border_of_vertex g k = Some s \<and> s \<noteq> []) =
      (set (border_set g k) \<noteq> {})"
    by (cases "district_id_on_border_of_vertex g k") (simp_all add: border_set_def)
  also have "\<dots> = (differing (vertices g) v (adj_vertices v) \<noteq> {})"
    by (simp only: ex)
  also have "\<dots> = (\<exists>a \<in> set (adj_vertices v). \<exists>n. map_of (vertices g) a = Some n \<and>
          district_id n \<noteq> district_id v)"
    unfolding differing_def by blast
  finally show "(\<exists>s. district_id_on_border_of_vertex g k = Some s \<and> s \<noteq> []) =
      (\<exists>a \<in> set (adj_vertices v). \<exists>n. map_of (vertices g) a = Some n \<and>
          district_id n \<noteq> district_id v)" .
next
  show "\<forall>p d g'. change_vertex_district g p d = Inr g' \<longrightarrow>
        dom (district_id_on_border_of_vertex g) \<subseteq> dom (district_id_on_border_of_vertex g')"
  proof (intro allI impI subsetI)
    fix p d g' j
    assume mv: "change_vertex_district g p d = Inr g'"
      and "j \<in> dom (district_id_on_border_of_vertex g)"
    then have "district_id_on_border_of_vertex g j \<noteq> None" by (simp add: domIff)
    from move_dob_keeps[OF reachable_consistent[OF assms(1)] mv this]
    show "j \<in> dom (district_id_on_border_of_vertex g')" by (simp add: domIff)
  qed
qed

theorem border_set_nonempty_iff_witness:
  "reachable path_g0 path_g1 \<and> adj_symmetric path_g1 \<and>
   map_of (vertices path_g1) 2 = Some \<lparr>prescinct_id = 2, district_id = 2, adj_vertices = [1, 3]\<rparr> \<and>
   district_id_on_border_of_vertex path_g1 2 = Some [1] \<and>
   (\<exists>a \<in> set [1, 3]. \<exists>n. map_of (vertices path_g1) a = Some n \<and> district_id n \<noteq> 2) \<and>
   change_vertex_district path_g1 1 2 = Inr path_g2 \<and>
   dom (district_id_on_border_of_vertex path_g1) \<subseteq> dom (district_id_on_border_of_vertex path_g2)"
proof -
  have v: "map_of (vertices path_g1) 2 = Some \<lparr>prescinct_id = 2, district_id = 2, adj_vertices = [1, 3]\<rparr>"
    and s: "district_id_on_border_of_vertex path_g1 2 = Some [1]"
    by (simp_all add: path_g1_def)
  note t = border_set_nonempty_iff [OF path_reach1 path_symmetric(1) v]
  from t s
  have "\<exists>a \<in> set [1, 3]. \<exists>n. map_of (vertices path_g1) a = Some n \<and> district_id n \<noteq> 2"
    by simp
  moreover from t path_moved
  have "dom (district_id_on_border_of_vertex path_g1) \<subseteq>
      dom (district_id_on_border_of_vertex path_g2)" by blast
  ultimately show ?thesis using path_reach1 path_symmetric(1) v s path_moved by blast
qed

text \<open>
  The claim as the specification words it fails twice on the concrete graph. After
  construction alone vertex \<open>1\<close> is adjacent to vertex \<open>2\<close> of another district
  and is no key; after the move of vertex \<open>1\<close>, vertex \<open>2\<close>, whose set has become
  empty, is a key with the empty set.
\<close>

theorem border_set_dangling_counterexample:
  "graph_from_json Graph_init path_frame = Inr path_g0 \<and>
   district_id_on_border_of_vertex path_g0 1 = None \<and>
   get_border_vertices path_g0 = Inr path_g1 \<and>
   district_id_on_border_of_vertex path_g1 2 = Some [1] \<and>
   change_vertex_district path_g1 1 2 = Inr path_g2 \<and>
   district_id_on_border_of_vertex path_g2 2 = Some []"
  using path_built path_discovered path_moved
  by (simp add: path_g0_def path_g1_def path_g2_def)



text \<open>
  C4. A move that returns changes the recorded set and the entries of the border
  index of no vertex but the moved one and those it lists as adjacent: for every other
  id, the set and every entry (key and descriptor) are those of before.
\<close>

theorem change_vertex_district_frame:
  assumes "reachable g0 g" and "change_vertex_district g p d = Inr g'"
    and "map_of (vertices g) p = Some v" and "k \<noteq> p" and "k \<notin> set (adj_vertices v)"
  shows "district_id_on_border_of_vertex g' k = district_id_on_border_of_vertex g k \<and>
     (\<forall>x. vertex_on_border g' (k, x) = vertex_on_border g (k, x))"
proof -
  from reachable_consistent[OF assms(1)] have so: "structure_ok g"
    by (simp add: consistent_def)
  from move_frame[OF so assms(2,3,4,5)] show ?thesis by simp
qed

theorem change_vertex_district_frame_witness:
  "reachable long_g0 long_g1 \<and> change_vertex_district long_g1 1 2 = Inr long_g2 \<and>
   map_of (vertices long_g1) 1 = Some \<lparr>prescinct_id = 1, district_id = 1, adj_vertices = [0, 2]\<rparr> \<and>
   district_id_on_border_of_vertex long_g1 3 = Some [3] \<and>
   vertex_on_border long_g1 (3, 3) = Some [3, 2, 3] \<and>
   district_id_on_border_of_vertex long_g2 3 = Some [3] \<and>
   vertex_on_border long_g2 (3, 3) = Some [3, 2, 3] \<and>
   (\<forall>x. vertex_on_border long_g2 (3, x) = vertex_on_border long_g1 (3, x))"
proof -
  have v: "map_of (vertices long_g1) 1 =
      Some \<lparr>prescinct_id = 1, district_id = 1, adj_vertices = [0, 2]\<rparr>"
    and b: "district_id_on_border_of_vertex long_g1 3 = Some [3]"
      "vertex_on_border long_g1 (3, 3) = Some [3, 2, 3]"
    by (simp_all add: long_g1_def)
  from change_vertex_district_frame [OF long_reach1 long_moved v, of 3]
  have f: "district_id_on_border_of_vertex long_g2 3 = district_id_on_border_of_vertex long_g1 3"
    "\<forall>x. vertex_on_border long_g2 (3, x) = vertex_on_border long_g1 (3, x)"
    by simp_all
  from f b have "district_id_on_border_of_vertex long_g2 3 = Some [3]"
    "vertex_on_border long_g2 (3, 3) = Some [3, 2, 3]"
    by simp_all
  with long_reach1 long_moved v b f(2) show ?thesis by blast
qed



text \<open>
  C6, as the code has it. \<^verbatim>\<open>graph_from_json\<close> does not look for rows that share
  an index: the vertex of each row is stored under the row's index by a plain dict
  assignment, so that the last row of an index replaces the earlier ones. The first
  loop has run to its end before the tensor is touched: whether the call returns or
  raises while it fills the tensor, \<^verbatim>\<open>self.vertices\<close> holds under every index
  the vertex of the last row with that index.
\<close>

theorem graph_from_json_last_row_wins:
  assumes "graph_from_json Graph_init df = Inr g \<or> graph_from_json Graph_init df = Inl (e, g)"
  shows "map_of (vertices g) = map_of (rev (map row_vertex df))"
  using assms
proof
  assume "graph_from_json Graph_init df = Inr g"
  then show ?thesis by (rule graph_from_json_vertices)
next
  assume "graph_from_json Graph_init df = Inl (e, g)"
  from graph_from_json_raised[OF this] load_rows_map[of "[]" 0 df] show ?thesis by simp
qed

theorem graph_from_json_last_row_wins_witness:
  "graph_from_json Graph_init dup_frame = Inr dup_graph \<and>
   map_of (vertices dup_graph) = map_of (rev (map row_vertex dup_frame)) \<and>
   map_of (rev (map row_vertex dup_frame)) 0 =
     Some \<lparr>prescinct_id = 0, district_id = 2, adj_vertices = []\<rparr>"
proof -
  have b: "graph_from_json Graph_init dup_frame = Inr dup_graph"
    by (simp add: run_defs dup_frame_def dup_graph_def)
  from graph_from_json_last_row_wins [OF disjI1, OF b]
  have "map_of (vertices dup_graph) = map_of (rev (map row_vertex dup_frame))" .
  moreover have "map_of (rev (map row_vertex dup_frame)) 0 =
     Some \<lparr>prescinct_id = 0, district_id = 2, adj_vertices = []\<rparr>"
    by (simp add: dup_frame_def row_vertex_def Vertex_init_def)
  ultimately show ?thesis using b by blast
qed

text \<open>
  Two rows with the index \<open>0\<close>: the call returns, and the graph holds one vertex,
  the one of the second row.
\<close>

theorem graph_from_json_duplicate_counterexample:
  "graph_from_json Graph_init [(0, 1, []), (0, 2, [])] =
     Inr \<lparr>vertex_on_border = Map.empty, district_id_on_border_of_vertex = Map.empty,
          vertices = [(0, \<lparr>prescinct_id = 0, district_id = 2, adj_vertices = []\<rparr>)],
          max_district_id = 0, state = Some [[2]]\<rparr>"
  by (simp add: run_defs)

text \<open>
  C7. On a freshly constructed graph and on every graph reached from it, the descriptor
  stored under a key \<open>(k, d)\<close> of the border index is \<open>[k, c, d]\<close> with \<open>c\<close> the
  current district of the vertex \<open>k\<close>: its middle component is never stale. (A
  freshly constructed graph has no key yet.)
\<close>

theorem descriptor_current:
  assumes "freshly_constructed g \<or> reachable g0 g"
    and "vertex_on_border g (k, d) = Some x"
  shows "\<exists>w. map_of (vertices g) k = Some w \<and> x ! 1 = district_id w \<and>
     x = [k, district_id w, d]"
proof -
  from assms(1) have "descriptors_ok g"
  proof
    assume "freshly_constructed g"
    then show ?thesis by (simp add: freshly_constructed_def descriptors_ok_def)
  next
    assume "reachable g0 g"
    from reachable_consistent[OF this] show ?thesis by (simp add: consistent_def)
  qed
  with assms(2) obtain w where "map_of (vertices g) k = Some w" "x = [k, district_id w, d]"
    unfolding descriptors_ok_def by blast
  then show ?thesis by simp
qed

theorem descriptor_current_witness:
  "reachable path_g0 path_g2 \<and> vertex_on_border path_g2 (1, 1) = Some [1, 2, 1] \<and>
   (\<exists>w. map_of (vertices path_g2) 1 = Some w \<and> district_id w = 2)"
proof -
  have e: "vertex_on_border path_g2 (1, 1) = Some [1, 2, 1]" by (simp add: path_g2_def)
  from descriptor_current [OF disjI2, OF path_reach2 e]
  have "\<exists>w. map_of (vertices path_g2) 1 = Some w \<and> district_id w = 2" by auto
  with path_reach2 e show ?thesis by blast
qed

text \<open>
  C8. On a freshly constructed graph, a second \<^verbatim>\<open>get_border_vertices\<close> returns
  with the border index and the sets of bordering districts the first one left.
\<close>

theorem get_border_vertices_idempotent:
  assumes "freshly_constructed g0" and "get_border_vertices g0 = Inr g1"
  shows "\<exists>g2. get_border_vertices g1 = Inr g2 \<and>
     vertex_on_border g2 = vertex_on_border g1 \<and>
     district_id_on_border_of_vertex g2 = district_id_on_border_of_vertex g1"
proof -
  from discovery_consistent(1)[OF assms] have "structure_ok g1" "closed g1"
    by (simp_all add: consistent_def)
  then obtain g2 where g2: "get_border_vertices g1 = Inr g2"
    using discovery_succeeds by blast
  from discovery_again[OF assms g2] g2 show ?thesis by blast
qed

theorem get_border_vertices_idempotent_witness:
  "freshly_constructed path_g0 \<and> get_border_vertices path_g0 = Inr path_g1 \<and>
   (\<exists>g2. get_border_vertices path_g1 = Inr g2 \<and>
      vertex_on_border g2 = vertex_on_border path_g1 \<and>
      district_id_on_border_of_vertex g2 = district_id_on_border_of_vertex path_g1)"
  using get_border_vertices_idempotent [OF path_fresh path_discovered]
    path_fresh path_discovered
  by blast

text \<open>
  C9, as the code has it. Take a graph that \<^verbatim>\<open>graph_from_json\<close> has built and in
  which no two vertex ids address the same row of the tensor, as is the case when no
  id is negative. After border discovery and after every move that returns, column 0
  of the row of every vertex id holds the 32-bit float of the current district of the
  vertex, negated exactly when the vertex is on a border, that is adjacent to a vertex
  of another district (the adjacency taken symmetric). The float is the district
  itself, or its negation, when the district has a magnitude of at most \<open>2 ^ 24\<close>.
\<close>

theorem state_mirrors_border:
  assumes "graph_from_json Graph_init df = Inr g0" and "rows_apart g0"
    and "reachable g0 g" and "adj_symmetric g"
    and "map_of (vertices g) k = Some v"
  shows "state_get0 (state g) k =
       Some (f32 (if (\<exists>a \<in> set (adj_vertices v). \<exists>n. map_of (vertices g) a = Some n \<and>
                        district_id n \<noteq> district_id v)
                  then - district_id v else district_id v)) \<and>
     (\<bar>district_id v\<bar> \<le> 16777216 \<longrightarrow>
      state_get0 (state g) k =
       Some (if (\<exists>a \<in> set (adj_vertices v). \<exists>n. map_of (vertices g) a = Some n \<and>
                   district_id n \<noteq> district_id v)
             then - district_id v else district_id v))"
proof -
  let ?b = "\<exists>a \<in> set (adj_vertices v). \<exists>n. map_of (vertices g) a = Some n \<and>
                 district_id n \<noteq> district_id v"
  let ?x = "if ?b then - district_id v else district_id v"
  have m0: "mirrored g0" by (rule graph_from_json_mirrored[OF assms(1,2)])
  from reachable_mirrored[OF assms(3,2) m0] assms(5) have "mirrored_at g k v"
    unfolding mirrored_def by blast
  then have s: "state_get0 (state g) k =
      Some (f32 (if border_set g k = [] then district_id v else - district_id v))"
    by (simp add: mirrored_at_def)
  from reachable_exact[OF assms(3,4)] assms(5)
  have ex: "set (border_set g k) = differing (vertices g) v (adj_vertices v)"
    by (simp add: exact_def)
  have "(border_set g k = []) = (set (border_set g k) = {})" by simp
  also have "\<dots> = (differing (vertices g) v (adj_vertices v) = {})" by (simp only: ex)
  also have "\<dots> = (\<not> ?b)"
    unfolding differing_def by blast
  finally have b: "(border_set g k = []) = (\<not> ?b)" .
  have c: "state_get0 (state g) k = Some (f32 ?x)"
  proof (cases ?b)
    case True
    with b have "border_set g k \<noteq> []" by blast
    with s have "state_get0 (state g) k = Some (f32 (- district_id v))" by simp
    with True show ?thesis by (simp only: if_True)
  next
    case False
    with b have "border_set g k = []" by blast
    with s have "state_get0 (state g) k = Some (f32 (district_id v))" by simp
    with False show ?thesis by (simp only: if_False)
  qed
  have "state_get0 (state g) k = Some ?x" if "\<bar>district_id v\<bar> \<le> 16777216"
  proof -
    from that have "\<bar>?x\<bar> \<le> 16777216" by (simp split: if_splits)
    then have "f32 ?x = ?x" by (rule f32_exact)
    with c show ?thesis by (simp only:)
  qed
  with c show ?thesis by blast
qed

theorem state_mirrors_border_witness:
  "graph_from_json Graph_init path_frame = Inr path_g0 \<and> rows_apart path_g0 \<and>
   reachable path_g0 path_g2 \<and> adj_symmetric path_g2 \<and>
   map_of (vertices path_g2) 1 = Some \<lparr>prescinct_id = 1, district_id = 2, adj_vertices = [0, 2]\<rparr> \<and>
   map_of (vertices path_g2) 2 = Some \<lparr>prescinct_id = 2, district_id = 2, adj_vertices = [1, 3]\<rparr> \<and>
   state_get0 (state path_g2) 1 = Some (- 2) \<and> state_get0 (state path_g2) 2 = Some 2"
proof -
  have nn: "\<forall>row \<in> set path_frame. 0 \<le> fst row" by (simp add: path_frame_def)
  have ra: "rows_apart path_g0" by (rule graph_from_json_nonneg[OF path_built nn])
  have v: "map_of (vertices path_g2) 1 =
      Some \<lparr>prescinct_id = 1, district_id = 2, adj_vertices = [0, 2]\<rparr>"
    "map_of (vertices path_g2) 2 =
      Some \<lparr>prescinct_id = 2, district_id = 2, adj_vertices = [1, 3]\<rparr>"
    and n: "map_of (vertices path_g2) 0 =
      Some \<lparr>prescinct_id = 0, district_id = 1, adj_vertices = [1]\<rparr>"
    "map_of (vertices path_g2) 3 =
      Some \<lparr>prescinct_id = 3, district_id = 2, adj_vertices = [2]\<rparr>"
    by (simp_all add: path_g2_def)
  from state_mirrors_border [OF path_built ra path_reach2 path_symmetric(2) v(1)] v n
  have "state_get0 (state path_g2) 1 = Some (- 2)" by (simp add: f32_exact)
  moreover from state_mirrors_border [OF path_built ra path_reach2 path_symmetric(2) v(2)] v n
  have "state_get0 (state path_g2) 2 = Some 2" by (simp add: f32_exact)
  ultimately show ?thesis using path_built ra path_reach2 path_symmetric(2) v by blast
qed

text \<open>
  The claim as the specification words it fails on two counts. With the ids \<open>-1\<close>
  and \<open>1\<close> both vertices address the second of the two rows: after border discovery
  the cell read for vertex \<open>-1\<close>, a border vertex of district \<open>1\<close>, holds \<open>-2\<close>,
  written for vertex \<open>1\<close>. And the cell of a border vertex of district
  \<open>16777217\<close> holds \<open>-16777216\<close>, the nearest 32-bit float.
\<close>

theorem state_mirror_counterexample:
  "graph_from_json Graph_init neg_frame = Inr neg_g0 \<and>
   get_border_vertices neg_g0 = Inr neg_g1 \<and> adj_symmetric neg_g1 \<and>
   map_of (vertices neg_g1) (- 1) =
     Some \<lparr>prescinct_id = - 1, district_id = 1, adj_vertices = [1]\<rparr> \<and>
   map_of (vertices neg_g1) 1 =
     Some \<lparr>prescinct_id = 1, district_id = 2, adj_vertices = [- 1]\<rparr> \<and>
   state_get0 (state neg_g1) (- 1) = Some (- 2) \<and>
   graph_from_json Graph_init big_frame = Inr big_g0 \<and>
   get_border_vertices big_g0 = Inr big_g1 \<and> adj_symmetric big_g1 \<and>
   map_of (vertices big_g1) 0 =
     Some \<lparr>prescinct_id = 0, district_id = 16777217, adj_vertices = [1]\<rparr> \<and>
   map_of (vertices big_g1) 1 =
     Some \<lparr>prescinct_id = 1, district_id = 1, adj_vertices = [0]\<rparr> \<and>
   state_get0 (state big_g1) 0 = Some (- 16777216)"
proof -
  have "adj_symmetric neg_g1" "adj_symmetric big_g1"
    by (auto simp: adj_symmetric_def neg_g1_def big_g1_def split: if_splits)
  moreover have "map_of (vertices neg_g1) (- 1) =
       Some \<lparr>prescinct_id = - 1, district_id = 1, adj_vertices = [1]\<rparr>"
    "map_of (vertices neg_g1) 1 =
       Some \<lparr>prescinct_id = 1, district_id = 2, adj_vertices = [- 1]\<rparr>"
    "state_get0 (state neg_g1) (- 1) = Some (- 2)"
    by (simp_all add: neg_g1_def state_get0_def norm_index_def)
  moreover have "map_of (vertices big_g1) 0 =
       Some \<lparr>prescinct_id = 0, district_id = 16777217, adj_vertices = [1]\<rparr>"
    "map_of (vertices big_g1) 1 =
       Some \<lparr>prescinct_id = 1, district_id = 1, adj_vertices = [0]\<rparr>"
    "state_get0 (state big_g1) 0 = Some (- 16777216)"
    by (simp_all add: big_g1_def state_get0_def norm_index_def)
  ultimately show ?thesis
    using neg_built neg_discovered big_built big_discovered by blast
qed

text \<open>
  C10. A call of \<^verbatim>\<open>change_vertex_district\<close> with an id that is not a key of
  \<^verbatim>\<open>self.vertices\<close> raises \<^verbatim>\<open>KeyError\<close> at the lookup of line 71, before
  any check and any assignment: the graph is as it was.
\<close>

theorem change_vertex_district_unknown_id:
  "map_of (vertices g) p = None \<Longrightarrow> change_vertex_district g p d = Inl (KeyError, g)"
  by (simp add: change_vertex_district_def)

theorem change_vertex_district_unknown_id_witness:
  "map_of (vertices path_g1) 7 = None \<and>
   change_vertex_district path_g1 7 2 = Inl (KeyError, path_g1)"
proof -
  have n: "map_of (vertices path_g1) 7 = None" by (simp add: path_g1_def)
  from change_vertex_district_unknown_id [OF n, of 2] n show ?thesis by blast
qed

section \<open>Where the hypotheses are needed\<close>

text \<open>
  \<^verbatim>\<open>graph_from_json\<close> allocates one row of the tensor per vertex, so it cannot build
  the scenario of the specification from a frame of four rows: the id \<open>4\<close> addresses
  no row and the second loop raises \<^verbatim>\<open>IndexError\<close>.
\<close>

theorem graph_from_json_ids_from_one:
  "\<exists>g. graph_from_json Graph_init [(1, 1, [2]), (2, 1, [1, 3]), (3, 2, [2, 4]), (4, 2, [3])] =
     Inl (IndexError, g)"
  by (simp add: run_defs)

text \<open>
  Without symmetry the border index goes stale. Vertex \<open>0\<close> lists vertex \<open>1\<close>, which
  does not list it back; after vertex \<open>1\<close> has moved to district \<open>2\<close>, vertex
  \<open>0\<close> of district \<open>1\<close> is adjacent to it and has no entry for district \<open>2\<close>.
\<close>

theorem asymmetric_adjacency_goes_stale:
  "\<exists>g0 g1 g2.
     graph_from_json Graph_init [(0, 1, [1]), (1, 1, [2]), (2, 2, [1])] = Inr g0 \<and>
     get_border_vertices g0 = Inr g1 \<and> change_vertex_district g1 1 2 = Inr g2 \<and>
     map_of (vertices g2) 0 = Some \<lparr>prescinct_id = 0, district_id = 1, adj_vertices = [1]\<rparr> \<and>
     map_of (vertices g2) 1 = Some \<lparr>prescinct_id = 1, district_id = 2, adj_vertices = [2]\<rparr> \<and>
     (0, 2) \<notin> dom (vertex_on_border g2)"
  by (simp add: run_defs)

end
